theory Spec2Isabelle
  imports Main
begin

section \<open>The document selection of the editing engine\<close>

text \<open>
  A shallow embedding of \<^verbatim>\<open>model/documentselection.js\<close>: the selection that
  holds live ranges over the document tree, carries a map of attributes, resolves the
  attributes of a caret from the content around it, and remembers the attributes of a
  caret in an empty container under reserved keys of that container.
\<close>

subsection \<open>JavaScript maps\<close>

text \<open>
  A \<^verbatim>\<open>Map\<close> keeps its entries in insertion order with unique keys; it is
  the list of its entries. \<^verbatim>\<open>set\<close> overwrites the value of a key in place and
  appends a new key at the end, \<^verbatim>\<open>delete\<close> drops the entry of a key, and
  \<^verbatim>\<open>new Map(iterable)\<close> sets the pairs of the iterable one after the other.
\<close>

type_synonym key = string

type_synonym 'v js_map = "(key \<times> 'v) list"

fun map_set :: "key \<Rightarrow> 'v \<Rightarrow> 'v js_map \<Rightarrow> 'v js_map" where
  "map_set k v [] = [(k, v)]"
| "map_set k v (e # m) = (if fst e = k then (k, v) # m else e # map_set k v m)"

definition map_delete :: "key \<Rightarrow> 'v js_map \<Rightarrow> 'v js_map" where
  "map_delete k m = filter (\<lambda>e. fst e \<noteq> k) m"

definition map_get :: "'v js_map \<Rightarrow> key \<Rightarrow> 'v option" where
  "map_get m k = map_of m k"

definition map_has :: "'v js_map \<Rightarrow> key \<Rightarrow> bool" where
  "map_has m k = (k \<in> fst ` set m)"

definition new_Map :: "(key \<times> 'v) list \<Rightarrow> 'v js_map" where
  "new_Map entries = foldl (\<lambda>m e. map_set (fst e) (snd e) m) [] entries"

text \<open>
  Modelled from the spec: \<^verbatim>\<open>toMap\<close> of the utilities is not among the
  sources. The attributes given to a full replacement (an iterable of pairs, or the
  entries of an object) become a new map with unique keys.
\<close>

definition toMap :: "(key \<times> 'v) list \<Rightarrow> 'v js_map" where
  "toMap entries = new_Map entries"

subsection \<open>The tree, positions and ranges\<close>

text \<open>
  A child of a container is a character (a \<^verbatim>\<open>CharacterProxy\<close>, which has
  attributes of its own) or some other node. A container has its children and its own
  attributes; containers are addressed by a number.
\<close>

datatype 'v node = CharacterProxy "'v js_map" | OtherNode

record 'v element =
  children :: "'v node list"
  attributes :: "'v js_map"

record Position =
  parent :: nat
  offset :: nat

record Range =
  start :: Position
  finish :: Position

text \<open>A live range is a range with the identity under which it listens to the document.\<close>

record LiveRange =
  lr_id :: nat
  lr_range :: Range

text \<open>
  An item met when iterating over the contents of a range: its \<^verbatim>\<open>type\<close>
  (a string such as \<^verbatim>\<open>'TEXT'\<close> or \<^verbatim>\<open>'ELEMENT_START'\<close>) and the pairs
  that \<^verbatim>\<open>item.getAttributes()\<close> yields.
\<close>

record 'v walker_value =
  wv_type :: string
  wv_attrs :: "(key \<times> 'v) list"

subsection \<open>Deferred changes\<close>

text \<open>
  The three closures that the selection hands to \<^verbatim>\<open>enqueueChanges\<close>, each
  with the variables it captures: the store key, the value, the map object (by
  reference) and the parent found when the closure was made.
\<close>

datatype 'v change =
    RemoveStoredAttribute key nat
  | StoreAttribute key 'v nat
  | SetStoredAttributesTo nat nat

datatype error = TypeError | InvalidRange

datatype 's outcome = Done 's | Threw error 's

fun and_then :: "'s outcome \<Rightarrow> ('s \<Rightarrow> 's outcome) \<Rightarrow> 's outcome" where
  "and_then (Done s) f = f s"
| "and_then (Threw e s) f = Threw e s"

fun succeeded :: "'s outcome \<Rightarrow> bool" where
  "succeeded (Done s) = True"
| "succeeded (Threw e s) = False"

fun state_after :: "'s outcome \<Rightarrow> 's" where
  "state_after (Done s) = s"
| "state_after (Threw e s) = s"

subsection \<open>The state\<close>

text \<open>
  The selection (\<open>sel_\<close>), the map objects it has created (\<open>heap_\<close>: the map
  behind \<^verbatim>\<open>this._attrs\<close> is shared with a closure that captured it), and the
  part of the document it works on (\<open>doc_\<close>): the containers, the changes waiting
  in the open transaction, the live ranges that listen to changes, the order of
  positions and the contents of a range as its iterator yields them.
\<close>

record 'v state =
  sel_ranges :: "LiveRange list"
  sel_lastRangeBackward :: bool
  sel_attrs :: nat
  sel_fired :: "string list"
  heap_maps :: "nat \<Rightarrow> 'v js_map"
  heap_next :: nat
  doc_elements :: "nat \<Rightarrow> 'v element"
  doc_pendingChanges :: "'v change list"
  doc_listening :: "nat list"
  doc_nextRange :: nat
  doc_isBefore :: "Position \<Rightarrow> Position \<Rightarrow> bool"
  doc_rangeItems :: "Range \<Rightarrow> 'v walker_value list"

definition attrs_of :: "'v state \<Rightarrow> 'v js_map" where
  "attrs_of s = heap_maps s (sel_attrs s)"

definition fire :: "string \<Rightarrow> 'v state \<Rightarrow> 'v state" where
  "fire ev s = s\<lparr>sel_fired := sel_fired s @ [ev]\<rparr>"

subsection \<open>What the selection uses of its base class and of the document\<close>

text \<open>
  Modelled from the spec: the base class \<^verbatim>\<open>Selection\<close> (its accessors
  \<^verbatim>\<open>getFirstRange\<close>, \<^verbatim>\<open>getFirstPosition\<close> and \<^verbatim>\<open>isCollapsed\<close>)
  is not among the sources. The first range is the one whose start comes first in the
  document's order of positions; a selection without ranges has no caret context, so
  there is no first range and no first position.
\<close>

definition getFirstRange :: "'v state \<Rightarrow> Range option" where
  "getFirstRange s =
     foldl (\<lambda>first r. case first of
                None \<Rightarrow> Some r
              | Some f \<Rightarrow> if doc_isBefore s (start r) (start f) then Some r else Some f)
       None (map lr_range (sel_ranges s))"

definition getFirstPosition :: "'v state \<Rightarrow> Position option" where
  "getFirstPosition s = map_option start (getFirstRange s)"

text \<open>
  Modelled from the spec: \<^verbatim>\<open>isCollapsed\<close> of the base class is not among
  the sources. A selection is collapsed when its range has equal start and end (a caret).
\<close>

definition isCollapsed :: "'v state \<Rightarrow> bool" where
  "isCollapsed s = (case sel_ranges s of [r] \<Rightarrow> start (lr_range r) = finish (lr_range r) | _ \<Rightarrow> False)"

text \<open>
  Modelled from the spec: the tree's \<^verbatim>\<open>getChild\<close> and
  \<^verbatim>\<open>getChildCount\<close> are not among the sources. The child at an index outside
  the children is no node; the sibling before (after) a child is the child at the index
  before (after) it.
\<close>

definition getChild :: "'v element \<Rightarrow> int \<Rightarrow> 'v node option" where
  "getChild e i = (if 0 \<le> i \<and> i < int (length (children e)) then Some (children e ! nat i) else None)"

definition getChildCount :: "'v element \<Rightarrow> nat" where
  "getChildCount e = length (children e)"

text \<open>
  Modelled from the spec: the document's \<^verbatim>\<open>enqueueChanges\<close> and the batch's
  \<^verbatim>\<open>setAttr\<close> and \<^verbatim>\<open>removeAttr\<close> are not among the sources. Enqueueing
  appends the change to those waiting in the open transaction; the batch sets or removes
  an attribute of the node itself.
\<close>

definition enqueueChanges :: "'v change \<Rightarrow> 'v state \<Rightarrow> 'v state" where
  "enqueueChanges c s = s\<lparr>doc_pendingChanges := doc_pendingChanges s @ [c]\<rparr>"

definition batch_setAttr :: "key \<Rightarrow> 'v \<Rightarrow> nat \<Rightarrow> 'v state \<Rightarrow> 'v state" where
  "batch_setAttr k v p s =
     s\<lparr>doc_elements := (doc_elements s)
          (p := (doc_elements s p)\<lparr>attributes := map_set k v (attributes (doc_elements s p))\<rparr>)\<rparr>"

definition batch_removeAttr :: "key \<Rightarrow> nat \<Rightarrow> 'v state \<Rightarrow> 'v state" where
  "batch_removeAttr k p s =
     s\<lparr>doc_elements := (doc_elements s)
          (p := (doc_elements s p)\<lparr>attributes := map_delete k (attributes (doc_elements s p))\<rparr>)\<rparr>"

subsection \<open>The attribute store of an empty container\<close>

definition storePrefix :: string where
  "storePrefix = ''selection:''"

definition getStoreAttributeKey :: "key \<Rightarrow> key" where
  "getStoreAttributeKey k = storePrefix @ k"

text \<open>\<^verbatim>\<open>attr[ 0 ].indexOf( storePrefix ) === 0\<close>: the key starts with the prefix.\<close>

definition hasStorePrefix :: "key \<Rightarrow> bool" where
  "hasStorePrefix k = (take (length storePrefix) k = storePrefix)"

text \<open>
  The body of the generator \<^verbatim>\<open>_getStoredAttributes\<close> once the first position
  is known: the pairs it yields.
\<close>

definition storedAttributesAt :: "'v state \<Rightarrow> Position \<Rightarrow> (key \<times> 'v) list" where
  "storedAttributesAt s pos =
     (let selectionParent = doc_elements s (parent pos)
      in if isCollapsed s \<and> getChildCount selectionParent = 0
         then map (\<lambda>attr. (drop (length storePrefix) (fst attr), snd attr))
                (filter (\<lambda>attr. hasStorePrefix (fst attr)) (attributes selectionParent))
         else [])"

text \<open>Iterating the generator: no value stands for the error of reading the parent of no position.\<close>

definition getStoredAttributes :: "'v state \<Rightarrow> (key \<times> 'v) list option" where
  "getStoredAttributes s = map_option (storedAttributesAt s) (getFirstPosition s)"



definition setStoredAttributesTo :: "nat \<Rightarrow> 'v state \<Rightarrow> 'v state outcome" where
  "setStoredAttributesTo attrs s =
     (case getFirstPosition s of
        None \<Rightarrow> Threw TypeError s
      | Some pos \<Rightarrow>
          let selectionParent = parent pos
          in if isCollapsed s \<and> getChildCount (doc_elements s selectionParent) = 0
             then Done (enqueueChanges (SetStoredAttributesTo attrs selectionParent) s)
             else Done s)"

text \<open>
  Running a closure when the transaction is flushed. The closure of
  \<^verbatim>\<open>_setStoredAttributesTo\<close> reads the stored attributes of the selection as it
  is then, removes each of them from the parent it captured, and then sets the pairs
  that the captured map holds then.
\<close>

fun run_change :: "'v change \<Rightarrow> 'v state \<Rightarrow> 'v state outcome" where
  "run_change (RemoveStoredAttribute storeKey selectionParent) s =
     Done (batch_removeAttr storeKey selectionParent s)"
| "run_change (StoreAttribute storeKey v selectionParent) s =
     Done (batch_setAttr storeKey v selectionParent s)"
| "run_change (SetStoredAttributesTo attrs selectionParent) s =
     (case getStoredAttributes s of
        None \<Rightarrow> Threw TypeError s
      | Some stored \<Rightarrow>
          Done (foldl (\<lambda>t attr. batch_setAttr (getStoreAttributeKey (fst attr)) (snd attr) selectionParent t)
                  (foldl (\<lambda>t attr. batch_removeAttr (getStoreAttributeKey (fst attr)) selectionParent t)
                     s stored)
                  (heap_maps s attrs)))"

text \<open>
  Modelled from the spec: closing the transaction is not among the sources. The pending
  changes run in the order in which they were enqueued.
\<close>

fun run_changes :: "'v change list \<Rightarrow> 'v state \<Rightarrow> 'v state outcome" where
  "run_changes [] s = Done s"
| "run_changes (c # cs) s = and_then (run_change c s) (run_changes cs)"

definition flush :: "'v state \<Rightarrow> 'v state outcome" where
  "flush s = run_changes (doc_pendingChanges s) (s\<lparr>doc_pendingChanges := []\<rparr>)"

subsection \<open>Attribute operations\<close>

definition map_alloc :: "'v js_map \<Rightarrow> 'v state \<Rightarrow> 'v state" where
  "map_alloc m s = s\<lparr>heap_maps := (heap_maps s)(heap_next s := m), heap_next := Suc (heap_next s)\<rparr>"

definition clearAttributes :: "'v state \<Rightarrow> 'v state outcome" where
  "clearAttributes s =
     (let s1 = s\<lparr>heap_maps := (heap_maps s)(sel_attrs s := [])\<rparr>;
          empty = heap_next s1;
          s2 = map_alloc [] s1
      in and_then (setStoredAttributesTo empty s2) (\<lambda>s3. Done (fire ''change:attribute'' s3)))"

definition getAttribute :: "'v state \<Rightarrow> key \<Rightarrow> 'v option" where
  "getAttribute s k = map_get (attrs_of s) k"

definition hasAttribute :: "'v state \<Rightarrow> key \<Rightarrow> bool" where
  "hasAttribute s k = map_has (attrs_of s) k"



definition setAttributesTo :: "(key \<times> 'v) list \<Rightarrow> 'v state \<Rightarrow> 'v state outcome" where
  "setAttributesTo attrs s =
     (let s1 = (map_alloc (toMap attrs) s)\<lparr>sel_attrs := heap_next s\<rparr>
      in and_then (setStoredAttributesTo (sel_attrs s1) s1) (\<lambda>s2. Done (fire ''change:attribute'' s2)))"

subsection \<open>Resolving the attributes of the selection\<close>

fun getAttrsIfCharacter :: "'v node option \<Rightarrow> (key \<times> 'v) list option" where
  "getAttrsIfCharacter (Some (CharacterProxy a)) = Some a"
| "getAttrsIfCharacter _ = None"

text \<open>
  The loop over the items of the range: the attributes of an item of type
  \<^verbatim>\<open>'TEXT'\<close> are taken while none has been taken yet; the loop does not stop early.
\<close>

definition scanRange :: "'v walker_value list \<Rightarrow> (key \<times> 'v) list option" where
  "scanRange items =
     foldl (\<lambda>attrs item. if wv_type item = ''TEXT'' \<and> attrs = None then Some (wv_attrs item) else attrs)
       None items"

text \<open>
  The two sibling walks, on the index of \<^verbatim>\<open>node\<close> in its parent:
  \<^verbatim>\<open>while ( node && !attrs ) { node = node.previousSibling; attrs = getAttrsIfCharacter( node ); }\<close>
  and the same with \<^verbatim>\<open>nextSibling\<close>. An iterator of attributes is an object,
  hence truthy also when it yields nothing.
\<close>

function walkLeft :: "'v element \<Rightarrow> int \<Rightarrow> (key \<times> 'v) list option" where
  "walkLeft e i =
     (case getChild e i of
        None \<Rightarrow> None
      | Some node \<Rightarrow>
          (case getAttrsIfCharacter (getChild e (i - 1)) of
             Some a \<Rightarrow> Some a
           | None \<Rightarrow> walkLeft e (i - 1)))"
  by pat_completeness auto
termination
  by (relation "measure (\<lambda>(e, i). nat (i + 1))") (auto simp: getChild_def split: if_splits)

function walkRight :: "'v element \<Rightarrow> int \<Rightarrow> (key \<times> 'v) list option" where
  "walkRight e i =
     (case getChild e i of
        None \<Rightarrow> None
      | Some node \<Rightarrow>
          (case getAttrsIfCharacter (getChild e (i + 1)) of
             Some a \<Rightarrow> Some a
           | None \<Rightarrow> walkRight e (i + 1)))"
  by pat_completeness auto
termination
  by (relation "measure (\<lambda>(e, i). nat (int (length (children e)) - i))")
     (auto simp: getChild_def split: if_splits)

declare walkLeft.simps [simp del] walkRight.simps [simp del]

text \<open>
  The branch of a caret: the node before, the node after, the walk to the left, the
  walk to the right, and at last the generator of the stored attributes, which is an
  object whatever it yields.
\<close>

definition caretAttrs :: "'v state \<Rightarrow> Position \<Rightarrow> (key \<times> 'v) list option" where
  "caretAttrs s position =
     (let positionParent = doc_elements s (parent position);
          nodeBefore = int (offset position) - 1;
          nodeAfter = int (offset position);
          attrs1 = getAttrsIfCharacter (getChild positionParent nodeBefore);
          attrs2 = (if attrs1 = None then getAttrsIfCharacter (getChild positionParent nodeAfter) else attrs1);
          attrs3 = (if attrs2 = None then walkLeft positionParent nodeBefore else attrs2);
          attrs4 = (if attrs3 = None then walkRight positionParent nodeAfter else attrs3)
      in if attrs4 = None then Some (storedAttributesAt s position) else attrs4)"

definition resolveAttrs :: "'v state \<Rightarrow> Position \<Rightarrow> (key \<times> 'v) list option outcome" where
  "resolveAttrs s position =
     (if \<not> isCollapsed s
      then (case getFirstRange s of
              None \<Rightarrow> Threw TypeError None
            | Some firstRange \<Rightarrow> Done (scanRange (doc_rangeItems s firstRange)))
      else Done (caretAttrs s position))"

definition updateAttributes :: "'v state \<Rightarrow> 'v state outcome" where
  "updateAttributes s =
     (case getFirstPosition s of
        None \<Rightarrow> Threw TypeError s
      | Some position \<Rightarrow>
          (case resolveAttrs s position of
             Threw e x \<Rightarrow> Threw e s
           | Done attrs \<Rightarrow>
               and_then
                 (case attrs of
                    Some a \<Rightarrow> Done ((map_alloc (new_Map a) s)\<lparr>sel_attrs := heap_next s\<rparr>)
                  | None \<Rightarrow> clearAttributes s)
                 (\<lambda>s1. Done (fire ''change:attribute'' s1))))"

subsection \<open>Iterating over the attributes\<close>

text \<open>
  \<^verbatim>\<open>getAttributes\<close> returns the iterator of the map object. An iterator of a
  map is positioned at the first entry when it is made and is exhausted for good once
  it has been iterated to its end; iterating is reading it to exhaustion in one go
  (a \<^verbatim>\<open>for ... of\<close> loop), with the entries the map has then.
\<close>

datatype map_iterator = AtStart nat | Exhausted

definition getAttributes :: "'v state \<Rightarrow> map_iterator" where
  "getAttributes s = AtStart (sel_attrs s)"

fun iterate :: "'v state \<Rightarrow> map_iterator \<Rightarrow> (key \<times> 'v) list \<times> map_iterator" where
  "iterate s (AtStart m) = (heap_maps s m, Exhausted)"
| "iterate s Exhausted = ([], Exhausted)"

subsection \<open>The ranges of the selection\<close>

text \<open>
  Modelled from the spec: \<^verbatim>\<open>LiveRange\<close> is not among the sources. Creating a
  live range from a range subscribes it to the change notifications of the document;
  detaching unsubscribes it and may be repeated.
\<close>

definition detach :: "LiveRange \<Rightarrow> 'v state \<Rightarrow> 'v state" where
  "detach r s = s\<lparr>doc_listening := removeAll (lr_id r) (doc_listening s)\<rparr>"

definition createFromRange :: "Range \<Rightarrow> 'v state \<Rightarrow> LiveRange \<times> 'v state" where
  "createFromRange r s =
     (\<lparr>lr_id = doc_nextRange s, lr_range = r\<rparr>,
      s\<lparr>doc_listening := doc_listening s @ [doc_nextRange s], doc_nextRange := Suc (doc_nextRange s)\<rparr>)"

text \<open>
  Modelled from the spec: \<^verbatim>\<open>_checkRange\<close> of the base class is not among the
  sources. A range is rejected when one of its positions does not address a location
  of the tree: a position is valid when its offset is at most the number of children of
  its container.
\<close>

definition validPosition :: "'v state \<Rightarrow> Position \<Rightarrow> bool" where
  "validPosition s p = (offset p \<le> getChildCount (doc_elements s (parent p)))"

definition checkRange :: "Range \<Rightarrow> 'v state \<Rightarrow> 'v state outcome" where
  "checkRange r s = (if validPosition s (start r) \<and> validPosition s (finish r) then Done s else Threw InvalidRange s)"

definition destroy :: "'v state \<Rightarrow> 'v state" where
  "destroy s = foldl (\<lambda>t r. detach r t) s (sel_ranges s)"

definition popRange :: "'v state \<Rightarrow> 'v state outcome" where
  "popRange s =
     (case rev (sel_ranges s) of
        [] \<Rightarrow> Threw TypeError s
      | r # rs \<Rightarrow> Done (detach r (s\<lparr>sel_ranges := rev rs\<rparr>)))"

definition pushRange :: "Range \<Rightarrow> 'v state \<Rightarrow> 'v state outcome" where
  "pushRange r s =
     and_then (checkRange r s)
       (\<lambda>s1. case createFromRange r s1 of (live, s2) \<Rightarrow> Done (s2\<lparr>sel_ranges := sel_ranges s2 @ [live]\<rparr>))"

text \<open>
  Modelled from the spec: \<^verbatim>\<open>setRanges\<close> and \<^verbatim>\<open>removeAllRanges\<close> of
  the base class are not among the sources. Setting the ranges replaces all current
  ranges by the incoming ones, pushed one by one, takes the direction of the last range
  from the flag, and emits the range-change notification; removing them leaves no range
  and emits the notification.
\<close>

fun pushRanges :: "Range list \<Rightarrow> 'v state \<Rightarrow> 'v state outcome" where
  "pushRanges [] s = Done s"
| "pushRanges (r # rs) s = and_then (pushRange r s) (pushRanges rs)"

definition super_setRanges :: "Range list \<Rightarrow> bool \<Rightarrow> 'v state \<Rightarrow> 'v state outcome" where
  "super_setRanges newRanges isLastBackward s =
     and_then (pushRanges newRanges (s\<lparr>sel_ranges := []\<rparr>))
       (\<lambda>s1. Done (fire ''change:range'' (s1\<lparr>sel_lastRangeBackward := isLastBackward\<rparr>)))"

definition super_removeAllRanges :: "'v state \<Rightarrow> 'v state" where
  "super_removeAllRanges s = fire ''change:range'' (s\<lparr>sel_ranges := []\<rparr>)"

definition removeAllRanges :: "'v state \<Rightarrow> 'v state" where
  "removeAllRanges s = super_removeAllRanges (destroy s)"

definition setRanges :: "Range list \<Rightarrow> bool \<Rightarrow> 'v state \<Rightarrow> 'v state outcome" where
  "setRanges newRanges isLastBackward s = super_setRanges newRanges isLastBackward (destroy s)"

text \<open>What the check of a range accepts, and the live ranges made from a list of ranges,
  numbered from a given identity on.\<close>

definition validRange :: "'v state \<Rightarrow> Range \<Rightarrow> bool" where
  "validRange s r = (validPosition s (start r) \<and> validPosition s (finish r))"

fun liveRangesFrom :: "nat \<Rightarrow> Range list \<Rightarrow> LiveRange list" where
  "liveRangesFrom n [] = []"
| "liveRangesFrom n (r # rs) = \<lparr>lr_id = n, lr_range = r\<rparr> # liveRangesFrom (Suc n) rs"

subsection \<open>The attribute-mutating operations as data\<close>




text \<open>The guard of the store: a caret in a container without children.\<close>

definition storeGuard :: "'v state \<Rightarrow> Position \<Rightarrow> bool" where
  "storeGuard s pos = (isCollapsed s \<and> getChildCount (doc_elements s (parent pos)) = 0)"

text \<open>What an attribute operation may change in memory: the map objects, the map the
  selection holds, and the notifications emitted.\<close>

definition sameOutsideMemory :: "'v state \<Rightarrow> 'v state \<Rightarrow> bool" where
  "sameOutsideMemory s t =
     (t\<lparr>heap_maps := heap_maps s, heap_next := heap_next s, sel_attrs := sel_attrs s,
        sel_fired := sel_fired s\<rparr> = s)"

subsection \<open>The tiers of a caret in the words of the specification\<close>

definition textBearing :: "'v node \<Rightarrow> bool" where
  "textBearing n = (case n of CharacterProxy a \<Rightarrow> True | OtherNode \<Rightarrow> False)"

definition attrsOfNode :: "'v node \<Rightarrow> (key \<times> 'v) list" where
  "attrsOfNode n = (case n of CharacterProxy a \<Rightarrow> a | OtherNode \<Rightarrow> [])"

text \<open>
  The siblings in the order of the tiers: the sibling immediately before the caret, the
  sibling immediately after it, the siblings to the left of the one before (nearest
  first), the siblings to the right of the one after (nearest first).
\<close>

definition caretTiers :: "'v node list \<Rightarrow> nat \<Rightarrow> 'v node list" where
  "caretTiers ch off =
     (if 0 < off then [ch ! (off - 1)] else []) @
     (if off < length ch then [ch ! off] else []) @
     rev (take (off - 1) ch) @
     drop (Suc off) ch"

text \<open>The reserved-prefix attributes of a container, decoded by stripping the prefix.\<close>

definition decodeStore :: "'v js_map \<Rightarrow> (key \<times> 'v) list" where
  "decodeStore m =
     map (\<lambda>attr. (drop (length storePrefix) (fst attr), snd attr))
       (filter (\<lambda>attr. hasStorePrefix (fst attr)) m)"

text \<open>The tiers as the claim words them: the last tier reads the store of the parent.\<close>

definition caretResolution_claimed :: "'v element \<Rightarrow> nat \<Rightarrow> (key \<times> 'v) list" where
  "caretResolution_claimed e off =
     (case List.find textBearing (caretTiers (children e) off) of
        Some n \<Rightarrow> attrsOfNode n
      | None \<Rightarrow> decodeStore (attributes e))"

text \<open>The tiers with the guard of the store: it is read only in a container without children.\<close>

definition caretResolution_guarded :: "'v element \<Rightarrow> nat \<Rightarrow> (key \<times> 'v) list" where
  "caretResolution_guarded e off =
     (case List.find textBearing (caretTiers (children e) off) of
        Some n \<Rightarrow> attrsOfNode n
      | None \<Rightarrow> if children e = [] then decodeStore (attributes e) else [])"

subsection \<open>Example documents\<close>

definition caretAt :: "nat \<Rightarrow> nat \<Rightarrow> Range" where
  "caretAt p off = \<lparr>start = \<lparr>parent = p, offset = off\<rparr>, finish = \<lparr>parent = p, offset = off\<rparr>\<rparr>"

definition spanOf :: "nat \<Rightarrow> nat \<Rightarrow> nat \<Rightarrow> Range" where
  "spanOf p a b = \<lparr>start = \<lparr>parent = p, offset = a\<rparr>, finish = \<lparr>parent = p, offset = b\<rparr>\<rparr>"

definition pathOrder :: "Position \<Rightarrow> Position \<Rightarrow> bool" where
  "pathOrder p q = (parent p < parent q \<or> (parent p = parent q \<and> offset p < offset q))"

text \<open>A document of one container, with one live range in the selection and no attributes.\<close>

definition oneContainer :: "bool element \<Rightarrow> Range \<Rightarrow> bool walker_value list \<Rightarrow> bool state" where
  "oneContainer e r items =
     \<lparr>sel_ranges = [\<lparr>lr_id = 0, lr_range = r\<rparr>], sel_lastRangeBackward = False, sel_attrs = 0,
      sel_fired = [], heap_maps = (\<lambda>m. []), heap_next = 1, doc_elements = (\<lambda>p. e),
      doc_pendingChanges = [], doc_listening = [0], doc_nextRange = 1, doc_isBefore = pathOrder,
      doc_rangeItems = (\<lambda>q. if q = r then items else [])\<rparr>"

text \<open>A caret in an empty container that stores bold.\<close>

definition storedBold :: "bool element" where
  "storedBold = \<lparr>children = [], attributes = [(''selection:bold'', True)]\<rparr>"

definition caretInEmpty :: "bool state" where
  "caretInEmpty = oneContainer storedBold (caretAt 0 0) []"

text \<open>A caret before an image in a container that still carries a stored bold.\<close>

definition staleStore :: "bool element" where
  "staleStore = \<lparr>children = [OtherNode], attributes = [(''selection:bold'', True)]\<rparr>"

definition caretBesideImage :: "bool state" where
  "caretBesideImage = oneContainer staleStore (caretAt 0 0) []"

text \<open>A range over a bold run followed by an italic run.\<close>

definition twoRuns :: "bool element" where
  "twoRuns = \<lparr>children = [CharacterProxy [(''bold'', True)], CharacterProxy [(''italic'', True)]],
               attributes = []\<rparr>"

definition rangeOverRuns :: "bool state" where
  "rangeOverRuns =
     oneContainer twoRuns (spanOf 0 0 2)
       [\<lparr>wv_type = ''TEXT'', wv_attrs = [(''bold'', True)]\<rparr>,
        \<lparr>wv_type = ''TEXT'', wv_attrs = [(''italic'', True)]\<rparr>]"

text \<open>A range over a single image: no item of it is text.\<close>

definition oneImage :: "bool element" where
  "oneImage = \<lparr>children = [OtherNode], attributes = []\<rparr>"

definition rangeOverImage :: "bool state" where
  "rangeOverImage =
     oneContainer oneImage (spanOf 0 0 1)
       [\<lparr>wv_type = ''ELEMENT_START'', wv_attrs = []\<rparr>, \<lparr>wv_type = ''ELEMENT_END'', wv_attrs = []\<rparr>]"

text \<open>A selection of two live ranges over the runs, both listening.\<close>

definition twoRanges :: "bool state" where
  "twoRanges =
     (oneContainer twoRuns (spanOf 0 0 1) [])
       \<lparr>sel_ranges := [\<lparr>lr_id = 0, lr_range = spanOf 0 0 1\<rparr>, \<lparr>lr_id = 1, lr_range = spanOf 0 1 2\<rparr>],
        doc_listening := [0, 1], doc_nextRange := 2\<rparr>"

text \<open>The caret of the empty container after bold has been set on the selection.\<close>

definition boldCaret :: "bool state" where
  "boldCaret = caretInEmpty\<lparr>heap_maps := (\<lambda>m. [(''bold'', True)])\<rparr>"


section \<open>Properties\<close>

subsection \<open>Maps and the scan of a range\<close>



lemma map_set_keys: "fst ` set (map_set k v m) = insert k (fst ` set m)"
  by (induction m) auto

lemma map_set_fresh: "k \<notin> fst ` set m \<Longrightarrow> map_set k v m = m @ [(k, v)]"
  by (induction m) auto

lemma map_set_distinct: "distinct (map fst m) \<Longrightarrow> distinct (map fst (map_set k v m))"
proof (induction m)
  case Nil
  then show ?case by simp
next
  case (Cons e m)
  have "fst ` set (map_set k v m) = insert k (fst ` set m)" by (rule map_set_keys)
  with Cons show ?case by auto
qed

lemma foldl_map_set_distinct:
  "distinct (map fst acc) \<Longrightarrow> distinct (map fst (foldl (\<lambda>m e. map_set (fst e) (snd e) m) acc es))"
  by (induction es arbitrary: acc) (auto simp: map_set_distinct)

lemma new_Map_distinct: "distinct (map fst (new_Map es))"
  unfolding new_Map_def by (rule foldl_map_set_distinct) simp

lemma foldl_map_set_append:
  "distinct (map fst es) \<Longrightarrow> fst ` set acc \<inter> fst ` set es = {} \<Longrightarrow>
   foldl (\<lambda>m e. map_set (fst e) (snd e) m) acc es = acc @ es"
proof (induction es arbitrary: acc)
  case Nil
  then show ?case by simp
next
  case (Cons e es)
  from Cons.prems have fresh: "fst e \<notin> fst ` set acc" by auto
  then have step: "map_set (fst e) (snd e) acc = acc @ [e]" by (simp add: map_set_fresh)
  from Cons.prems have "distinct (map fst es)" and "fst ` set (acc @ [e]) \<inter> fst ` set es = {}"
    by auto
  then have "foldl (\<lambda>m e. map_set (fst e) (snd e) m) (acc @ [e]) es = (acc @ [e]) @ es"
    by (rule Cons.IH)
  with step show ?case by simp
qed

lemma new_Map_of_distinct: "distinct (map fst es) \<Longrightarrow> new_Map es = es"
  unfolding new_Map_def using foldl_map_set_append [of es "[]"] by simp

lemma scanRange_acc:
  "foldl (\<lambda>attrs item. if wv_type item = ''TEXT'' \<and> attrs = None then Some (wv_attrs item) else attrs) acc items =
     (case acc of Some a \<Rightarrow> Some a
      | None \<Rightarrow> map_option wv_attrs (List.find (\<lambda>item. wv_type item = ''TEXT'') items))"
  by (induction items arbitrary: acc) (auto split: option.splits)

lemma scanRange_find:
  "scanRange items = map_option wv_attrs (List.find (\<lambda>item. wv_type item = ''TEXT'') items)"
  unfolding scanRange_def by (simp add: scanRange_acc)

subsection \<open>The attribute operations at a known position\<close>


lemma getFirstRange_cong:
  "sel_ranges t = sel_ranges s \<Longrightarrow> doc_isBefore t = doc_isBefore s \<Longrightarrow> getFirstRange t = getFirstRange s"
  unfolding getFirstRange_def by (simp cong: option.case_cong)

lemma getFirstPosition_cong:
  "sel_ranges t = sel_ranges s \<Longrightarrow> doc_isBefore t = doc_isBefore s \<Longrightarrow> getFirstPosition t = getFirstPosition s"
  unfolding getFirstPosition_def by (simp add: getFirstRange_cong [of t s])

lemma storeGuard_cong:
  "sel_ranges t = sel_ranges s \<Longrightarrow> doc_elements t = doc_elements s \<Longrightarrow> storeGuard t pos = storeGuard s pos"
  by (simp add: storeGuard_def isCollapsed_def)



lemma setStoredAttributesTo_at:
  "getFirstPosition s = Some pos \<Longrightarrow>
   setStoredAttributesTo m s =
     Done (if storeGuard s pos then enqueueChanges (SetStoredAttributesTo m (parent pos)) s else s)"
  by (simp add: setStoredAttributesTo_def storeGuard_def Let_def)



lemma setAttributesTo_at:
  assumes "getFirstPosition s = Some pos"
  shows "setAttributesTo attrs s =
     Done (s\<lparr>heap_maps := (heap_maps s)(heap_next s := toMap attrs),
            heap_next := Suc (heap_next s),
            sel_attrs := heap_next s,
            doc_pendingChanges := (if storeGuard s pos
               then doc_pendingChanges s @ [SetStoredAttributesTo (heap_next s) (parent pos)]
               else doc_pendingChanges s),
            sel_fired := sel_fired s @ [''change:attribute'']\<rparr>)"
proof -
  let ?s1 = "(map_alloc (toMap attrs) s)\<lparr>sel_attrs := heap_next s\<rparr>"
  have p: "getFirstPosition ?s1 = Some pos"
    using assms getFirstPosition_cong [of ?s1 s] by (simp add: map_alloc_def)
  have g: "storeGuard ?s1 pos = storeGuard s pos" by (rule storeGuard_cong) (simp_all add: map_alloc_def)
  show ?thesis
    unfolding setAttributesTo_def Let_def setStoredAttributesTo_at [OF p] g
    by (simp add: enqueueChanges_def fire_def map_alloc_def)
qed

lemma clearAttributes_at:
  assumes "getFirstPosition s = Some pos"
  shows "clearAttributes s =
     Done (s\<lparr>heap_maps := (heap_maps s)(sel_attrs s := [], heap_next s := []),
            heap_next := Suc (heap_next s),
            doc_pendingChanges := (if storeGuard s pos
               then doc_pendingChanges s @ [SetStoredAttributesTo (heap_next s) (parent pos)]
               else doc_pendingChanges s),
            sel_fired := sel_fired s @ [''change:attribute'']\<rparr>)"
proof -
  let ?s2 = "map_alloc [] (s\<lparr>heap_maps := (heap_maps s)(sel_attrs s := [])\<rparr>)"
  have p: "getFirstPosition ?s2 = Some pos"
    using assms getFirstPosition_cong [of ?s2 s] by (simp add: map_alloc_def)
  have g: "storeGuard ?s2 pos = storeGuard s pos" by (rule storeGuard_cong) (simp_all add: map_alloc_def)
  show ?thesis
    unfolding clearAttributes_def Let_def setStoredAttributesTo_at [OF p] g
    by (simp add: enqueueChanges_def fire_def map_alloc_def)
qed

text \<open>
  Claim C9, as amended. The iterator that \<^verbatim>\<open>getAttributes\<close> returns yields
  the pairs of the current attribute map, in the order of the map, once: iterated
  again after it has been exhausted, the same iterator yields nothing. A new call of
  \<^verbatim>\<open>getAttributes\<close> is needed to read the pairs again.
\<close>

theorem getAttributes_single_pass:
  "fst (iterate s (getAttributes s)) = attrs_of s
   \<and> fst (iterate s (snd (iterate s (getAttributes s)))) = []"
  by (simp add: getAttributes_def attrs_of_def)

text \<open>
  With bold set on the selection, the second iteration of the returned iterator does
  not yield what the first one yielded.
\<close>

theorem getAttributes_not_restartable:
  "fst (iterate boldCaret (snd (iterate boldCaret (getAttributes boldCaret))))
     \<noteq> fst (iterate boldCaret (getAttributes boldCaret))"
  by (simp add: getAttributes_def boldCaret_def caretInEmpty_def oneContainer_def)

text \<open>
  Claim C3. A resolution pass is to emit the attribute-change notification exactly
  once. For a range over a single image, which holds no text, the pass clears the
  attributes through \<^verbatim>\<open>clearAttributes\<close>, which emits the notification, and
  then emits it again: two notifications in one pass.
\<close>

theorem updateAttributes_clearing_notifies_twice:
  "\<not> isCollapsed rangeOverImage
   \<and> succeeded (updateAttributes rangeOverImage)
   \<and> sel_fired rangeOverImage = []
   \<and> sel_fired (state_after (updateAttributes rangeOverImage)) = [''change:attribute'', ''change:attribute'']"
  by (simp add: rangeOverImage_def oneContainer_def spanOf_def updateAttributes_def resolveAttrs_def
      getFirstPosition_def getFirstRange_def isCollapsed_def scanRange_def clearAttributes_def
      setStoredAttributesTo_def map_alloc_def fire_def Let_def)

subsection \<open>The sibling walks\<close>

lemma getAttrsIfCharacter_textBearing:
  "getAttrsIfCharacter (Some n) = (if textBearing n then Some (attrsOfNode n) else None)"
  by (cases n) (simp_all add: textBearing_def attrsOfNode_def)

lemma getChild_nat:
  "getChild e (int n) = (if n < length (children e) then Some (children e ! n) else None)"
  by (simp add: getChild_def)

lemma getChild_negative: "i < 0 \<Longrightarrow> getChild e i = None"
  by (simp add: getChild_def)

lemma walkLeft_step:
  "walkLeft e i =
     (if 0 \<le> i \<and> i < int (length (children e))
      then (case getAttrsIfCharacter (getChild e (i - 1)) of
              Some a \<Rightarrow> Some a
            | None \<Rightarrow> walkLeft e (i - 1))
      else None)"
  by (subst walkLeft.simps) (simp add: getChild_def)

lemma walkRight_step:
  "walkRight e i =
     (if 0 \<le> i \<and> i < int (length (children e))
      then (case getAttrsIfCharacter (getChild e (i + 1)) of
              Some a \<Rightarrow> Some a
            | None \<Rightarrow> walkRight e (i + 1))
      else None)"
  by (subst walkRight.simps) (simp add: getChild_def)

lemma walkLeft_outside: "i < 0 \<Longrightarrow> walkLeft e i = None"
  by (subst walkLeft_step) simp

lemma walkRight_outside: "int (length (children e)) \<le> i \<Longrightarrow> walkRight e i = None"
  by (subst walkRight_step) simp

lemma walkLeft_find:
  "n < length (children e) \<Longrightarrow>
   walkLeft e (int n) = map_option attrsOfNode (List.find textBearing (rev (take n (children e))))"
proof (induction n)
  case 0
  have "walkLeft e 0 = None"
    by (subst walkLeft_step) (simp add: getChild_negative walkLeft_outside)
  then show ?case by simp
next
  case (Suc n)
  then have n: "n < length (children e)" by simp
  have ih: "walkLeft e (int n) = map_option attrsOfNode (List.find textBearing (rev (take n (children e))))"
    using Suc.IH n by simp
  have step: "walkLeft e (int n + 1) =
      (case getAttrsIfCharacter (getChild e (int n)) of Some a \<Rightarrow> Some a | None \<Rightarrow> walkLeft e (int n))"
    using Suc.prems by (subst walkLeft_step) (simp cong: option.case_cong)
  have "walkLeft e (int n + 1) =
      map_option attrsOfNode (List.find textBearing (rev (take (Suc n) (children e))))"
    unfolding step ih using n
    by (simp add: getChild_nat getAttrsIfCharacter_textBearing take_Suc_conv_app_nth)
  then show ?case by (simp add: add.commute)
qed

lemma walkRight_find_aux:
  "d = length (children e) - n \<Longrightarrow> n < length (children e) \<Longrightarrow>
   walkRight e (int n) = map_option attrsOfNode (List.find textBearing (drop (Suc n) (children e)))"
proof (induction d arbitrary: n)
  case 0
  then show ?case by simp
next
  case (Suc d)
  have step: "walkRight e (int n) =
      (case getAttrsIfCharacter (getChild e (int (Suc n))) of
         Some a \<Rightarrow> Some a | None \<Rightarrow> walkRight e (int (Suc n)))"
    using Suc.prems by (subst walkRight_step) (simp add: add.commute cong: option.case_cong)
  show ?case
  proof (cases "Suc n < length (children e)")
    case False
    then have "walkRight e (int (Suc n)) = None" by (intro walkRight_outside) simp
    with False show ?thesis unfolding step by (simp add: getChild_nat del: of_nat_Suc)
  next
    case True
    from Suc.prems have "d = length (children e) - Suc n" by simp
    from Suc.IH [OF this True]
    have ih: "walkRight e (int (Suc n)) =
        map_option attrsOfNode (List.find textBearing (drop (Suc (Suc n)) (children e)))" .
    have dr: "drop (Suc n) (children e) = children e ! Suc n # drop (Suc (Suc n)) (children e)"
      using True by (simp add: Cons_nth_drop_Suc)
    show ?thesis
      unfolding step ih dr using True
      by (simp add: getChild_nat getAttrsIfCharacter_textBearing del: of_nat_Suc)
  qed
qed

lemma walkRight_find:
  "n < length (children e) \<Longrightarrow>
   walkRight e (int n) = map_option attrsOfNode (List.find textBearing (drop (Suc n) (children e)))"
  by (rule walkRight_find_aux [OF refl])

lemma find_textBearing_append:
  "List.find textBearing (xs @ ys) =
     (case List.find textBearing xs of Some n \<Rightarrow> Some n | None \<Rightarrow> List.find textBearing ys)"
  by (induction xs) simp_all

text \<open>The branch of a caret, tier by tier, is the first text-bearing sibling in the order of the tiers.\<close>

lemma caretAttrs_tiers:
  assumes "offset pos \<le> length (children (doc_elements s (parent pos)))"
  shows "caretAttrs s pos =
     (case List.find textBearing (caretTiers (children (doc_elements s (parent pos))) (offset pos)) of
        Some n \<Rightarrow> Some (attrsOfNode n)
      | None \<Rightarrow> Some (storedAttributesAt s pos))"
proof -
  let ?e = "doc_elements s (parent pos)"
  let ?ch = "children ?e"
  let ?off = "offset pos"
  have before: "getAttrsIfCharacter (getChild ?e (int ?off - 1)) =
      map_option attrsOfNode (List.find textBearing (if 0 < ?off then [?ch ! (?off - 1)] else []))"
  proof (cases ?off)
    case 0
    then show ?thesis by (simp add: getChild_negative)
  next
    case (Suc m)
    then have "int ?off - 1 = int m" and "m < length ?ch" using assms by simp_all
    then show ?thesis using Suc by (simp add: getChild_nat getAttrsIfCharacter_textBearing)
  qed
  have after: "getAttrsIfCharacter (getChild ?e (int ?off)) =
      map_option attrsOfNode (List.find textBearing (if ?off < length ?ch then [?ch ! ?off] else []))"
    by (simp add: getChild_nat getAttrsIfCharacter_textBearing)
  have left: "walkLeft ?e (int ?off - 1) = map_option attrsOfNode (List.find textBearing (rev (take (?off - 1) ?ch)))"
  proof (cases ?off)
    case 0
    have "walkLeft ?e (- 1) = None" by (rule walkLeft_outside) simp
    with 0 show ?thesis by simp
  next
    case (Suc m)
    then have m: "int ?off - 1 = int m" "m < length ?ch" "?off - 1 = m" using assms by simp_all
    show ?thesis unfolding m using walkLeft_find [OF m(2)] .
  qed
  have right: "walkRight ?e (int ?off) = map_option attrsOfNode (List.find textBearing (drop (Suc ?off) ?ch))"
  proof (cases "?off < length ?ch")
    case True
    then show ?thesis by (rule walkRight_find)
  next
    case False
    have "walkRight ?e (int ?off) = None"
      using False by (intro walkRight_outside) simp
    with False show ?thesis by simp
  qed
  show ?thesis
    unfolding caretAttrs_def Let_def before after left right caretTiers_def find_textBearing_append
    by (simp split: option.splits)
qed

lemma getChild_no_text:
  "List.find textBearing (children e) = None \<Longrightarrow> getAttrsIfCharacter (getChild e i) = None"
  by (auto simp: getChild_def getAttrsIfCharacter_textBearing find_None_iff)

lemma walkLeft_no_text:
  "List.find textBearing (children e) = None \<Longrightarrow> walkLeft e i = None"
proof (induction e i rule: walkLeft.induct)
  case (1 e i)
  show ?case
  proof (cases "0 \<le> i \<and> i < int (length (children e))")
    case False
    then show ?thesis by (subst walkLeft_step) auto
  next
    case True
    then obtain node where node: "getChild e i = Some node" by (auto simp: getChild_def)
    have none: "getAttrsIfCharacter (getChild e (i - 1)) = None" using "1.prems" by (rule getChild_no_text)
    have "walkLeft e (i - 1) = None" using "1.IH" [OF node none "1.prems"] .
    with none True show ?thesis by (subst walkLeft_step) simp
  qed
qed

lemma walkRight_no_text:
  "List.find textBearing (children e) = None \<Longrightarrow> walkRight e i = None"
proof (induction e i rule: walkRight.induct)
  case (1 e i)
  show ?case
  proof (cases "0 \<le> i \<and> i < int (length (children e))")
    case False
    then show ?thesis by (subst walkRight_step) auto
  next
    case True
    then obtain node where node: "getChild e i = Some node" by (auto simp: getChild_def)
    have none: "getAttrsIfCharacter (getChild e (i + 1)) = None" using "1.prems" by (rule getChild_no_text)
    have "walkRight e (i + 1) = None" using "1.IH" [OF node none "1.prems"] .
    with none True show ?thesis by (subst walkRight_step) simp
  qed
qed

lemma caretAttrs_no_text:
  "List.find textBearing (children (doc_elements s (parent pos))) = None \<Longrightarrow>
   caretAttrs s pos = Some (storedAttributesAt s pos)"
  by (simp add: caretAttrs_def Let_def getChild_no_text walkLeft_no_text walkRight_no_text)

lemma caretAttrs_some: "caretAttrs s pos \<noteq> None"
  by (simp add: caretAttrs_def Let_def)

subsection \<open>The resolution pass\<close>

lemma updateAttributes_found:
  assumes "getFirstPosition s = Some pos" and "resolveAttrs s pos = Done (Some a)"
  shows "updateAttributes s =
     Done (s\<lparr>heap_maps := (heap_maps s)(heap_next s := new_Map a),
            heap_next := Suc (heap_next s),
            sel_attrs := heap_next s,
            sel_fired := sel_fired s @ [''change:attribute'']\<rparr>)"
  using assms by (simp add: updateAttributes_def map_alloc_def fire_def)

lemma updateAttributes_cleared:
  assumes "getFirstPosition s = Some pos" and "resolveAttrs s pos = Done None"
  shows "updateAttributes s =
     Done (s\<lparr>heap_maps := (heap_maps s)(sel_attrs s := [], heap_next s := []),
            heap_next := Suc (heap_next s),
            doc_pendingChanges := (if storeGuard s pos
               then doc_pendingChanges s @ [SetStoredAttributesTo (heap_next s) (parent pos)]
               else doc_pendingChanges s),
            sel_fired := sel_fired s @ [''change:attribute'', ''change:attribute'']\<rparr>)"
  using assms by (simp add: updateAttributes_def clearAttributes_at [OF assms(1)] fire_def)

lemma resolveAttrs_range:
  "\<not> isCollapsed s \<Longrightarrow> getFirstRange s = Some r \<Longrightarrow>
   resolveAttrs s pos = Done (map_option wv_attrs (List.find (\<lambda>item. wv_type item = ''TEXT'') (doc_rangeItems s r)))"
  by (simp add: resolveAttrs_def scanRange_find)

lemma resolveAttrs_caret: "isCollapsed s \<Longrightarrow> resolveAttrs s pos = Done (caretAttrs s pos)"
  by (simp add: resolveAttrs_def)

text \<open>
  Claim C1. For a selection that is not collapsed, the resolution pass leaves in the
  attribute map the attributes of the first item of type text that the scan of the first
  range meets, whatever the later items carry; when the range holds no such item the map
  is left empty, whatever the siblings of the position and the store of its parent hold.
\<close>

theorem updateAttributes_range_first_text:
  assumes "\<not> isCollapsed s" and "getFirstRange s = Some r"
  shows "succeeded (updateAttributes s)
       \<and> attrs_of (state_after (updateAttributes s)) =
           (case List.find (\<lambda>item. wv_type item = ''TEXT'') (doc_rangeItems s r) of
              Some item \<Rightarrow> new_Map (wv_attrs item)
            | None \<Rightarrow> [])
       \<and> (case List.find (\<lambda>item. wv_type item = ''TEXT'') (doc_rangeItems s r) of
              Some item \<Rightarrow> distinct (map fst (wv_attrs item)) \<longrightarrow>
                            attrs_of (state_after (updateAttributes s)) = wv_attrs item
            | None \<Rightarrow> True)"
proof -
  have p: "getFirstPosition s = Some (start r)" using assms(2) by (simp add: getFirstPosition_def)
  note res = resolveAttrs_range [OF assms, of "start r"]
  show ?thesis
  proof (cases "List.find (\<lambda>item. wv_type item = ''TEXT'') (doc_rangeItems s r)")
    case None
    with res have "resolveAttrs s (start r) = Done None" by simp
    from updateAttributes_cleared [OF p this] None show ?thesis by (simp add: attrs_of_def)
  next
    case (Some item)
    with res have "resolveAttrs s (start r) = Done (Some (wv_attrs item))" by simp
    from updateAttributes_found [OF p this] Some show ?thesis
      by (simp add: attrs_of_def new_Map_of_distinct)
  qed
qed

theorem updateAttributes_range_witness:
  "\<not> isCollapsed rangeOverRuns
   \<and> getFirstRange rangeOverRuns = Some (spanOf 0 0 2)
   \<and> succeeded (updateAttributes rangeOverRuns)
   \<and> attrs_of (state_after (updateAttributes rangeOverRuns)) = [(''bold'', True)]"
proof -
  have nc: "\<not> isCollapsed rangeOverRuns"
    by (simp add: rangeOverRuns_def oneContainer_def spanOf_def isCollapsed_def)
  have fr: "getFirstRange rangeOverRuns = Some (spanOf 0 0 2)"
    by (simp add: rangeOverRuns_def oneContainer_def getFirstRange_def)
  have items: "doc_rangeItems rangeOverRuns (spanOf 0 0 2) =
      [\<lparr>wv_type = ''TEXT'', wv_attrs = [(''bold'', True)]\<rparr>,
       \<lparr>wv_type = ''TEXT'', wv_attrs = [(''italic'', True)]\<rparr>]"
    by (simp add: rangeOverRuns_def oneContainer_def)
  show ?thesis
    using nc fr updateAttributes_range_first_text [OF nc fr]
    by (simp add: items new_Map_def)
qed

text \<open>
  Claim C2, as amended. For a caret at a valid offset, the resolution pass leaves in the
  attribute map the attributes of the first text-bearing sibling in this order: the
  sibling immediately before the caret, the sibling immediately after it, the siblings
  further to the left (nearest first), the siblings further to the right (nearest
  first). When no sibling is text-bearing, it leaves the reserved-prefix attributes of
  the parent, decoded by stripping the prefix, if the parent has no children, and the
  empty map if the parent has children.
\<close>

theorem updateAttributes_caret_tiers:
  assumes "isCollapsed s" and "getFirstPosition s = Some pos"
    and "offset pos \<le> getChildCount (doc_elements s (parent pos))"
  shows "succeeded (updateAttributes s)
       \<and> attrs_of (state_after (updateAttributes s)) =
           new_Map (caretResolution_guarded (doc_elements s (parent pos)) (offset pos))"
proof -
  have valid: "offset pos \<le> length (children (doc_elements s (parent pos)))"
    using assms(3) by (simp add: getChildCount_def)
  have stored: "storedAttributesAt s pos =
      (if children (doc_elements s (parent pos)) = [] then decodeStore (attributes (doc_elements s (parent pos))) else [])"
    using assms(1) by (simp add: storedAttributesAt_def decodeStore_def getChildCount_def Let_def)
  have "caretAttrs s pos = Some (caretResolution_guarded (doc_elements s (parent pos)) (offset pos))"
    unfolding caretAttrs_tiers [OF valid] caretResolution_guarded_def stored
    by (simp split: option.splits)
  then have "resolveAttrs s pos = Done (Some (caretResolution_guarded (doc_elements s (parent pos)) (offset pos)))"
    using assms(1) by (simp add: resolveAttrs_caret)
  from updateAttributes_found [OF assms(2) this] show ?thesis by (simp add: attrs_of_def)
qed

theorem updateAttributes_caret_witness:
  "isCollapsed caretInEmpty
   \<and> getFirstPosition caretInEmpty = Some \<lparr>parent = 0, offset = 0\<rparr>
   \<and> offset \<lparr>parent = 0, offset = 0\<rparr> \<le> getChildCount (doc_elements caretInEmpty 0)
   \<and> succeeded (updateAttributes caretInEmpty)
   \<and> attrs_of (state_after (updateAttributes caretInEmpty)) = [(''bold'', True)]"
proof -
  have c: "isCollapsed caretInEmpty"
    by (simp add: caretInEmpty_def oneContainer_def caretAt_def isCollapsed_def)
  have p: "getFirstPosition caretInEmpty = Some \<lparr>parent = 0, offset = 0\<rparr>"
    by (simp add: caretInEmpty_def oneContainer_def caretAt_def getFirstPosition_def getFirstRange_def)
  have e: "doc_elements caretInEmpty 0 = storedBold"
    by (simp add: caretInEmpty_def oneContainer_def)
  have v: "offset \<lparr>parent = 0, offset = 0\<rparr> \<le> getChildCount (doc_elements caretInEmpty (parent \<lparr>parent = 0, offset = 0\<rparr>))"
    by simp
  have r: "new_Map (caretResolution_guarded storedBold 0) = [(''bold'', True)]"
    by (simp add: caretResolution_guarded_def caretTiers_def storedBold_def decodeStore_def
        hasStorePrefix_def storePrefix_def new_Map_def)
  show ?thesis
    using c p updateAttributes_caret_tiers [OF c p v] by (simp add: e r)
qed

text \<open>
  A caret beside an image in a container that carries a stored bold: the claim's last
  tier gives bold, the pass leaves the map empty.
\<close>

theorem updateAttributes_caret_stale_store:
  "isCollapsed caretBesideImage
   \<and> getFirstPosition caretBesideImage = Some \<lparr>parent = 0, offset = 0\<rparr>
   \<and> succeeded (updateAttributes caretBesideImage)
   \<and> attrs_of (state_after (updateAttributes caretBesideImage)) = []
   \<and> new_Map (caretResolution_claimed (doc_elements caretBesideImage 0) 0) = [(''bold'', True)]"
proof -
  have c: "isCollapsed caretBesideImage"
    by (simp add: caretBesideImage_def oneContainer_def caretAt_def isCollapsed_def)
  have p: "getFirstPosition caretBesideImage = Some \<lparr>parent = 0, offset = 0\<rparr>"
    by (simp add: caretBesideImage_def oneContainer_def caretAt_def getFirstPosition_def getFirstRange_def)
  have e: "doc_elements caretBesideImage 0 = staleStore"
    by (simp add: caretBesideImage_def oneContainer_def)
  have nt: "List.find textBearing (children (doc_elements caretBesideImage (parent \<lparr>parent = 0, offset = 0\<rparr>))) = None"
    by (simp add: e staleStore_def textBearing_def)
  have st: "storedAttributesAt caretBesideImage \<lparr>parent = 0, offset = 0\<rparr> = []"
    by (simp add: storedAttributesAt_def e staleStore_def getChildCount_def)
  have "resolveAttrs caretBesideImage \<lparr>parent = 0, offset = 0\<rparr> = Done (Some [])"
    using c caretAttrs_no_text [OF nt] by (simp add: resolveAttrs_caret st)
  from updateAttributes_found [OF p this]
  have a: "succeeded (updateAttributes caretBesideImage)"
    "attrs_of (state_after (updateAttributes caretBesideImage)) = []"
    by (simp_all add: attrs_of_def new_Map_def)
  have cl: "new_Map (caretResolution_claimed (doc_elements caretBesideImage 0) 0) = [(''bold'', True)]"
    by (simp add: e caretResolution_claimed_def caretTiers_def staleStore_def decodeStore_def
        textBearing_def hasStorePrefix_def storePrefix_def new_Map_def)
  show ?thesis using c p a cl by simp
qed

text \<open>
  Claim C10. For a caret, the resolution pass finds a value in every case (the last tier
  is a generator object even when it yields nothing), so it never takes the branch that
  clears the attributes: it succeeds, schedules no change, leaves the containers as they
  are, replaces the attribute map by the pairs found (the stored ones when no sibling is
  text-bearing, hence the empty map when the store yields nothing) and emits one
  notification.
\<close>

theorem updateAttributes_caret_reads_only:
  assumes "isCollapsed s" and "getFirstPosition s = Some pos"
  shows "succeeded (updateAttributes s)
       \<and> resolveAttrs s pos = Done (caretAttrs s pos)
       \<and> caretAttrs s pos \<noteq> None
       \<and> doc_pendingChanges (state_after (updateAttributes s)) = doc_pendingChanges s
       \<and> doc_elements (state_after (updateAttributes s)) = doc_elements s
       \<and> sameOutsideMemory s (state_after (updateAttributes s))
       \<and> attrs_of (state_after (updateAttributes s)) =
           new_Map (case caretAttrs s pos of Some a \<Rightarrow> a | None \<Rightarrow> [])
       \<and> (List.find textBearing (children (doc_elements s (parent pos))) = None \<longrightarrow>
            attrs_of (state_after (updateAttributes s)) = new_Map (storedAttributesAt s pos))
       \<and> sel_fired (state_after (updateAttributes s)) = sel_fired s @ [''change:attribute'']"
proof -
  obtain a where a: "caretAttrs s pos = Some a" using caretAttrs_some [of s pos] by auto
  then have "resolveAttrs s pos = Done (Some a)" using assms(1) by (simp add: resolveAttrs_caret)
  from updateAttributes_found [OF assms(2) this] a caretAttrs_no_text [of s pos]
  show ?thesis
    using assms(1) by (auto simp: attrs_of_def sameOutsideMemory_def resolveAttrs_caret)
qed

theorem updateAttributes_caret_reads_only_witness:
  "isCollapsed caretInEmpty
   \<and> getFirstPosition caretInEmpty = Some \<lparr>parent = 0, offset = 0\<rparr>
   \<and> succeeded (updateAttributes caretInEmpty)
   \<and> doc_pendingChanges (state_after (updateAttributes caretInEmpty)) = []
   \<and> sel_fired (state_after (updateAttributes caretInEmpty)) = [''change:attribute'']"
proof -
  have c: "isCollapsed caretInEmpty"
    by (simp add: caretInEmpty_def oneContainer_def caretAt_def isCollapsed_def)
  have p: "getFirstPosition caretInEmpty = Some \<lparr>parent = 0, offset = 0\<rparr>"
    by (simp add: caretInEmpty_def oneContainer_def caretAt_def getFirstPosition_def getFirstRange_def)
  have q: "doc_pendingChanges caretInEmpty = []" "sel_fired caretInEmpty = []"
    by (simp_all add: caretInEmpty_def oneContainer_def)
  show ?thesis
    using c p q updateAttributes_caret_reads_only [OF c p] by simp
qed

subsection \<open>The attribute operations and the store\<close>














subsection \<open>Running the scheduled changes\<close>

lemma foldl_map_delete:
  "foldl (\<lambda>m a. map_delete (f a) m) A xs = filter (\<lambda>e. fst e \<notin> f ` set xs) A"
proof (induction xs arbitrary: A)
  case Nil
  then show ?case by simp
next
  case (Cons x xs)
  have "foldl (\<lambda>m a. map_delete (f a) m) (map_delete (f x) A) xs =
        filter (\<lambda>e. fst e \<notin> f ` set xs) (map_delete (f x) A)"
    by (rule Cons.IH)
  then show ?case by (auto simp: map_delete_def intro: filter_cong)
qed

lemma storeKey_of_decoded:
  "hasStorePrefix k \<Longrightarrow> getStoreAttributeKey (drop (length storePrefix) k) = k"
  unfolding hasStorePrefix_def getStoreAttributeKey_def
  by (metis append_take_drop_id)

lemma hasStorePrefix_storeKey: "hasStorePrefix (getStoreAttributeKey k)"
  by (simp add: hasStorePrefix_def getStoreAttributeKey_def)

lemma decoded_of_storeKey: "drop (length storePrefix) (getStoreAttributeKey k) = k"
  by (simp add: getStoreAttributeKey_def)

lemma storeKeys_of_decodeStore:
  "(\<lambda>a. getStoreAttributeKey (fst a)) ` set (decodeStore A) = {k \<in> fst ` set A. hasStorePrefix k}"
  by (auto simp: decodeStore_def storeKey_of_decoded image_iff) (force simp: storeKey_of_decoded)

lemma remove_decoded:
  "foldl (\<lambda>m a. map_delete (getStoreAttributeKey (fst a)) m) A (decodeStore A) =
     filter (\<lambda>e. \<not> hasStorePrefix (fst e)) A"
  unfolding foldl_map_delete storeKeys_of_decodeStore
  by (rule filter_cong) auto

lemma foldl_batch_removeAttr:
  "foldl (\<lambda>t a. batch_removeAttr (f a) p t) s xs =
     s\<lparr>doc_elements := (doc_elements s)
          (p := (doc_elements s p)\<lparr>attributes := foldl (\<lambda>m a. map_delete (f a) m) (attributes (doc_elements s p)) xs\<rparr>)\<rparr>"
  by (induction xs arbitrary: s) (simp_all add: batch_removeAttr_def)

lemma foldl_batch_setAttr:
  "foldl (\<lambda>t a. batch_setAttr (f a) (g a) p t) s xs =
     s\<lparr>doc_elements := (doc_elements s)
          (p := (doc_elements s p)\<lparr>attributes := foldl (\<lambda>m a. map_set (f a) (g a) m) (attributes (doc_elements s p)) xs\<rparr>)\<rparr>"
  by (induction xs arbitrary: s) (simp_all add: batch_setAttr_def)

text \<open>The closure of a full replacement, run for a caret in the childless parent it captured.\<close>

lemma run_setStoredAttributesTo:
  assumes "isCollapsed s" and "getFirstPosition s = Some pos"
    and "getChildCount (doc_elements s (parent pos)) = 0"
  shows "run_change (SetStoredAttributesTo a (parent pos)) s =
     Done (s\<lparr>doc_elements := (doc_elements s)
            (parent pos := (doc_elements s (parent pos))
               \<lparr>attributes := foldl (\<lambda>m e. map_set (getStoreAttributeKey (fst e)) (snd e) m)
                    (filter (\<lambda>e. \<not> hasStorePrefix (fst e)) (attributes (doc_elements s (parent pos))))
                    (heap_maps s a)\<rparr>)\<rparr>)"
proof -
  have stored: "getStoredAttributes s = Some (decodeStore (attributes (doc_elements s (parent pos))))"
    using assms by (simp add: getStoredAttributes_def storedAttributesAt_def decodeStore_def Let_def)
  show ?thesis
    by (simp add: stored foldl_batch_removeAttr foldl_batch_setAttr remove_decoded)
qed

lemma written_store:
  assumes "distinct (map fst M)" and "\<forall>e \<in> set B. \<not> hasStorePrefix (fst e)"
  shows "foldl (\<lambda>m e. map_set (getStoreAttributeKey (fst e)) (snd e) m) B M =
           B @ map (\<lambda>e. (getStoreAttributeKey (fst e), snd e)) M"
proof -
  let ?g = "\<lambda>e. (getStoreAttributeKey (fst e), snd e)"
  have inj: "inj getStoreAttributeKey" by (simp add: inj_def getStoreAttributeKey_def)
  have keys: "map fst (map ?g M) = map getStoreAttributeKey (map fst M)" by (simp add: comp_def)
  have "distinct (map getStoreAttributeKey (map fst M))"
    using assms(1) inj unfolding distinct_map by (auto simp: inj_on_def inj_def)
  then have d: "distinct (map fst (map ?g M))" unfolding keys .
  have disj: "fst ` set B \<inter> fst ` set (map ?g M) = {}"
    using assms(2) hasStorePrefix_storeKey by fastforce
  have "foldl (\<lambda>m e. map_set (fst e) (snd e) m) B (map ?g M) = B @ map ?g M"
    using d disj by (rule foldl_map_set_append)
  then show ?thesis by (simp add: foldl_map)
qed

lemma decodeStore_written:
  assumes "distinct (map fst M)"
  shows "decodeStore (foldl (\<lambda>m e. map_set (getStoreAttributeKey (fst e)) (snd e) m)
            (filter (\<lambda>e. \<not> hasStorePrefix (fst e)) A) M) = M"
proof -
  have "decodeStore (filter (\<lambda>e. \<not> hasStorePrefix (fst e)) A @ map (\<lambda>e. (getStoreAttributeKey (fst e), snd e)) M) = M"
    by (simp add: decodeStore_def filter_map comp_def hasStorePrefix_storeKey decoded_of_storeKey)
  then show ?thesis using written_store [OF assms, of "filter (\<lambda>e. \<not> hasStorePrefix (fst e)) A"] by simp
qed

lemma run_change_frame:
  assumes "getFirstPosition s = Some pos"
  shows "\<exists>E. run_change c s = Done (s\<lparr>doc_elements := E\<rparr>)
           \<and> (\<forall>p. children (E p) = children (doc_elements s p))"
proof (cases c)
  case (RemoveStoredAttribute k p)
  then show ?thesis by (auto simp: batch_removeAttr_def)
next
  case (StoreAttribute k v p)
  then show ?thesis by (auto simp: batch_setAttr_def)
next
  case (SetStoredAttributesTo a p)
  have "getStoredAttributes s = Some (storedAttributesAt s pos)"
    using assms by (simp add: getStoredAttributes_def)
  with SetStoredAttributesTo show ?thesis
    by (auto simp: foldl_batch_removeAttr foldl_batch_setAttr)
qed

lemma run_changes_frame:
  assumes "getFirstPosition s = Some pos"
  shows "\<exists>E. run_changes cs s = Done (s\<lparr>doc_elements := E\<rparr>)
           \<and> (\<forall>p. children (E p) = children (doc_elements s p))"
  using assms
proof (induction cs arbitrary: s)
  case Nil
  have "s = s\<lparr>doc_elements := doc_elements s\<rparr>" by simp
  then show ?case by (metis run_changes.simps(1))
next
  case (Cons c cs)
  from run_change_frame [OF Cons.prems, of c] obtain E where
    E: "run_change c s = Done (s\<lparr>doc_elements := E\<rparr>)" "\<forall>p. children (E p) = children (doc_elements s p)"
    by blast
  have "getFirstPosition (s\<lparr>doc_elements := E\<rparr>) = Some pos"
    using Cons.prems getFirstPosition_cong [of "s\<lparr>doc_elements := E\<rparr>" s] by simp
  from Cons.IH [OF this] obtain E' where
    E': "run_changes cs (s\<lparr>doc_elements := E\<rparr>) = Done (s\<lparr>doc_elements := E'\<rparr>)"
        "\<forall>p. children (E' p) = children (E p)"
    by auto
  show ?case using E E' by auto
qed

lemma run_changes_snoc: "run_changes (cs @ [c]) s = and_then (run_changes cs s) (run_change c)"
proof (induction cs arbitrary: s)
  case Nil
  then show ?case by (cases "run_change c s") simp_all
next
  case (Cons d cs)
  then show ?case by (cases "run_change d s") simp_all
qed

text \<open>
  Flushing a transaction whose last change is a full replacement scheduled for the caret:
  afterwards nothing is pending and the store of the parent holds the captured map.
\<close>

lemma flush_last_replacement:
  assumes c: "isCollapsed s" and p: "getFirstPosition s = Some pos"
    and e: "getChildCount (doc_elements s (parent pos)) = 0"
    and q: "doc_pendingChanges s = cs @ [SetStoredAttributesTo a (parent pos)]"
    and d: "distinct (map fst (heap_maps s a))"
  shows "\<exists>E. flush s = Done (s\<lparr>doc_pendingChanges := [], doc_elements := E\<rparr>)
           \<and> (\<forall>p. children (E p) = children (doc_elements s p))
           \<and> decodeStore (attributes (E (parent pos))) = heap_maps s a"
proof -
  let ?s0 = "s\<lparr>doc_pendingChanges := []\<rparr>"
  have p0: "getFirstPosition ?s0 = Some pos" using p getFirstPosition_cong [of ?s0 s] by simp
  from run_changes_frame [OF p0, of cs] obtain E where
    E: "run_changes cs ?s0 = Done (?s0\<lparr>doc_elements := E\<rparr>)"
       "\<forall>p. children (E p) = children (doc_elements s p)"
    by auto
  let ?t = "?s0\<lparr>doc_elements := E\<rparr>"
  have ct: "isCollapsed ?t" using c by (simp add: isCollapsed_def)
  have pt: "getFirstPosition ?t = Some pos" using p getFirstPosition_cong [of ?t s] by simp
  have et: "getChildCount (doc_elements ?t (parent pos)) = 0" using e E(2) by (simp add: getChildCount_def)
  note run = run_setStoredAttributesTo [OF ct pt et, of a]
  let ?A = "foldl (\<lambda>m e. map_set (getStoreAttributeKey (fst e)) (snd e) m)
                (filter (\<lambda>e. \<not> hasStorePrefix (fst e)) (attributes (E (parent pos)))) (heap_maps s a)"
  let ?E' = "E(parent pos := (E (parent pos))\<lparr>attributes := ?A\<rparr>)"
  have fl: "flush s = Done (s\<lparr>doc_pendingChanges := [], doc_elements := ?E'\<rparr>)"
    unfolding flush_def q run_changes_snoc E(1) using run by simp
  have ch: "\<forall>p. children (?E' p) = children (doc_elements s p)" using E(2) by simp
  have st: "decodeStore (attributes (?E' (parent pos))) = heap_maps s a"
    using decodeStore_written [OF d] by simp
  show ?thesis using fl ch st by blast
qed

lemma stored_in_empty:
  assumes "isCollapsed s" and "getFirstPosition s = Some pos"
    and "getChildCount (doc_elements s (parent pos)) = 0"
  shows "getStoredAttributes s = Some (decodeStore (attributes (doc_elements s (parent pos))))"
  using assms by (simp add: getStoredAttributes_def storedAttributesAt_def decodeStore_def Let_def)

lemma updateAttributes_in_empty:
  assumes "isCollapsed s" and "getFirstPosition s = Some pos"
    and "getChildCount (doc_elements s (parent pos)) = 0"
  shows "succeeded (updateAttributes s)
       \<and> attrs_of (state_after (updateAttributes s)) =
           new_Map (decodeStore (attributes (doc_elements s (parent pos))))"
proof -
  have "List.find textBearing (children (doc_elements s (parent pos))) = None"
    using assms(3) by (simp add: getChildCount_def)
  then have "caretAttrs s pos = Some (storedAttributesAt s pos)" by (rule caretAttrs_no_text)
  moreover have "storedAttributesAt s pos = decodeStore (attributes (doc_elements s (parent pos)))"
    using assms by (simp add: storedAttributesAt_def decodeStore_def Let_def)
  ultimately have "resolveAttrs s pos = Done (Some (decodeStore (attributes (doc_elements s (parent pos)))))"
    using assms(1) by (simp add: resolveAttrs_caret)
  from updateAttributes_found [OF assms(2) this] show ?thesis by (simp add: attrs_of_def)
qed

text \<open>A caret in a childless parent stays one when only pending changes and container attributes change.\<close>

lemma caret_in_empty_frame:
  assumes "isCollapsed s" and "getFirstPosition s = Some pos"
    and "getChildCount (doc_elements s (parent pos)) = 0"
    and "sel_ranges t = sel_ranges s" and "doc_isBefore t = doc_isBefore s"
    and "\<forall>p. children (doc_elements t p) = children (doc_elements s p)"
  shows "isCollapsed t \<and> getFirstPosition t = Some pos \<and> getChildCount (doc_elements t (parent pos)) = 0"
  using assms getFirstPosition_cong [of t s] by (simp add: isCollapsed_def getChildCount_def)

lemma setAttributesTo_then_flush:
  assumes c: "isCollapsed s" and p: "getFirstPosition s = Some pos"
    and e: "getChildCount (doc_elements s (parent pos)) = 0"
  shows "succeeded (setAttributesTo X s)
       \<and> succeeded (flush (state_after (setAttributesTo X s)))
       \<and> isCollapsed (state_after (flush (state_after (setAttributesTo X s))))
       \<and> getFirstPosition (state_after (flush (state_after (setAttributesTo X s)))) = Some pos
       \<and> getChildCount (doc_elements (state_after (flush (state_after (setAttributesTo X s)))) (parent pos)) = 0
       \<and> decodeStore (attributes (doc_elements (state_after (flush (state_after (setAttributesTo X s)))) (parent pos)))
           = toMap X"
proof -
  have g: "storeGuard s pos" using c e by (simp add: storeGuard_def)
  let ?s1 = "state_after (setAttributesTo X s)"
  note s1 = setAttributesTo_at [OF p, of X]
  have f1: "sel_ranges ?s1 = sel_ranges s" "doc_isBefore ?s1 = doc_isBefore s"
    "\<forall>p. children (doc_elements ?s1 p) = children (doc_elements s p)"
    by (simp_all add: s1)
  from caret_in_empty_frame [OF c p e f1]
  have c1: "isCollapsed ?s1" and p1: "getFirstPosition ?s1 = Some pos"
    and e1: "getChildCount (doc_elements ?s1 (parent pos)) = 0" by simp_all
  have q1: "doc_pendingChanges ?s1 = doc_pendingChanges s @ [SetStoredAttributesTo (heap_next s) (parent pos)]"
    using g by (simp add: s1)
  have h1: "heap_maps ?s1 (heap_next s) = toMap X" by (simp add: s1)
  have d1: "distinct (map fst (heap_maps ?s1 (heap_next s)))"
    unfolding h1 toMap_def by (rule new_Map_distinct)
  from flush_last_replacement [OF c1 p1 e1 q1 d1] obtain E where
    E: "flush ?s1 = Done (?s1\<lparr>doc_pendingChanges := [], doc_elements := E\<rparr>)"
       "\<forall>p. children (E p) = children (doc_elements ?s1 p)"
       "decodeStore (attributes (E (parent pos))) = heap_maps ?s1 (heap_next s)"
    by blast
  let ?s2 = "state_after (flush ?s1)"
  have f2: "sel_ranges ?s2 = sel_ranges ?s1" "doc_isBefore ?s2 = doc_isBefore ?s1"
    "\<forall>p. children (doc_elements ?s2 p) = children (doc_elements ?s1 p)"
    using E(2) by (simp_all add: E(1))
  from caret_in_empty_frame [OF c1 p1 e1 f2]
  have "isCollapsed ?s2 \<and> getFirstPosition ?s2 = Some pos \<and> getChildCount (doc_elements ?s2 (parent pos)) = 0" .
  moreover have "decodeStore (attributes (doc_elements ?s2 (parent pos))) = toMap X"
    using E(3) h1 by (simp add: E(1))
  moreover have "succeeded (setAttributesTo X s)" by (simp add: s1)
  moreover have "succeeded (flush ?s1)" by (simp only: E(1) succeeded.simps)
  ultimately show ?thesis by simp
qed

lemma clearAttributes_then_flush:
  assumes c: "isCollapsed s" and p: "getFirstPosition s = Some pos"
    and e: "getChildCount (doc_elements s (parent pos)) = 0"
  shows "succeeded (clearAttributes s)
       \<and> succeeded (flush (state_after (clearAttributes s)))
       \<and> isCollapsed (state_after (flush (state_after (clearAttributes s))))
       \<and> getFirstPosition (state_after (flush (state_after (clearAttributes s)))) = Some pos
       \<and> getChildCount (doc_elements (state_after (flush (state_after (clearAttributes s)))) (parent pos)) = 0
       \<and> decodeStore (attributes (doc_elements (state_after (flush (state_after (clearAttributes s)))) (parent pos)))
           = []"
proof -
  have g: "storeGuard s pos" using c e by (simp add: storeGuard_def)
  let ?s1 = "state_after (clearAttributes s)"
  note s1 = clearAttributes_at [OF p]
  have f1: "sel_ranges ?s1 = sel_ranges s" "doc_isBefore ?s1 = doc_isBefore s"
    "\<forall>p. children (doc_elements ?s1 p) = children (doc_elements s p)"
    by (simp_all add: s1)
  from caret_in_empty_frame [OF c p e f1]
  have c1: "isCollapsed ?s1" and p1: "getFirstPosition ?s1 = Some pos"
    and e1: "getChildCount (doc_elements ?s1 (parent pos)) = 0" by simp_all
  have q1: "doc_pendingChanges ?s1 = doc_pendingChanges s @ [SetStoredAttributesTo (heap_next s) (parent pos)]"
    using g by (simp add: s1)
  have h1: "heap_maps ?s1 (heap_next s) = []" by (simp add: s1)
  have d1: "distinct (map fst (heap_maps ?s1 (heap_next s)))"
    unfolding h1 by simp
  from flush_last_replacement [OF c1 p1 e1 q1 d1] obtain E where
    E: "flush ?s1 = Done (?s1\<lparr>doc_pendingChanges := [], doc_elements := E\<rparr>)"
       "\<forall>p. children (E p) = children (doc_elements ?s1 p)"
       "decodeStore (attributes (E (parent pos))) = heap_maps ?s1 (heap_next s)"
    by blast
  let ?s2 = "state_after (flush ?s1)"
  have f2: "sel_ranges ?s2 = sel_ranges ?s1" "doc_isBefore ?s2 = doc_isBefore ?s1"
    "\<forall>p. children (doc_elements ?s2 p) = children (doc_elements ?s1 p)"
    using E(2) by (simp_all add: E(1))
  from caret_in_empty_frame [OF c1 p1 e1 f2]
  have "isCollapsed ?s2 \<and> getFirstPosition ?s2 = Some pos \<and> getChildCount (doc_elements ?s2 (parent pos)) = 0" .
  moreover have "decodeStore (attributes (doc_elements ?s2 (parent pos))) = []"
    using E(3) h1 by (simp add: E(1))
  moreover have "succeeded (clearAttributes s)" by (simp add: s1)
  moreover have "succeeded (flush ?s1)" by (simp only: E(1) succeeded.simps)
  ultimately show ?thesis by simp
qed

text \<open>Clearing right after a replacement that has not been flushed yet: both closures run in one flush.\<close>

lemma setAttributesTo_clearAttributes_then_flush:
  assumes c: "isCollapsed s" and p: "getFirstPosition s = Some pos"
    and e: "getChildCount (doc_elements s (parent pos)) = 0"
  shows "succeeded (clearAttributes (state_after (setAttributesTo X s)))
       \<and> succeeded (flush (state_after (clearAttributes (state_after (setAttributesTo X s)))))
       \<and> getStoredAttributes (state_after (flush (state_after (clearAttributes (state_after (setAttributesTo X s))))))
           = Some []"
proof -
  let ?s1 = "state_after (setAttributesTo X s)"
  note s1 = setAttributesTo_at [OF p, of X]
  have f1: "sel_ranges ?s1 = sel_ranges s" "doc_isBefore ?s1 = doc_isBefore s"
    "\<forall>p. children (doc_elements ?s1 p) = children (doc_elements s p)"
    by (simp_all add: s1)
  from caret_in_empty_frame [OF c p e f1]
  have c1: "isCollapsed ?s1" and p1: "getFirstPosition ?s1 = Some pos"
    and e1: "getChildCount (doc_elements ?s1 (parent pos)) = 0" by simp_all
  from clearAttributes_then_flush [OF c1 p1 e1] stored_in_empty
  show ?thesis by metis
qed

text \<open>
  Claim C5. Under the guard (a caret whose parent has no children), \<^verbatim>\<open>setAttributesTo\<close>
  changes no container at the time of the call and appends exactly one change to those
  pending; that one change, when it runs, leaves on the parent its attributes without
  any of the reserved-prefix keys it had, followed by the new attribute set written
  under prefixed keys.
\<close>

theorem setAttributesTo_one_scheduled_replacement:
  assumes "isCollapsed s" and "getFirstPosition s = Some pos"
    and "getChildCount (doc_elements s (parent pos)) = 0"
  shows "succeeded (setAttributesTo X s)
       \<and> attrs_of (state_after (setAttributesTo X s)) = toMap X
       \<and> doc_elements (state_after (setAttributesTo X s)) = doc_elements s
       \<and> doc_pendingChanges (state_after (setAttributesTo X s)) =
           doc_pendingChanges s @ [SetStoredAttributesTo (sel_attrs (state_after (setAttributesTo X s))) (parent pos)]
       \<and> succeeded (run_change (SetStoredAttributesTo (sel_attrs (state_after (setAttributesTo X s))) (parent pos))
                       (state_after (setAttributesTo X s)))
       \<and> doc_elements (state_after
             (run_change (SetStoredAttributesTo (sel_attrs (state_after (setAttributesTo X s))) (parent pos))
                (state_after (setAttributesTo X s)))) =
           (doc_elements s)
             (parent pos := (doc_elements s (parent pos))
                \<lparr>attributes := foldl (\<lambda>m e. map_set (getStoreAttributeKey (fst e)) (snd e) m)
                     (filter (\<lambda>e. \<not> hasStorePrefix (fst e)) (attributes (doc_elements s (parent pos))))
                     (toMap X)\<rparr>)"
proof -
  have g: "storeGuard s pos" using assms by (simp add: storeGuard_def)
  let ?s1 = "state_after (setAttributesTo X s)"
  note s1 = setAttributesTo_at [OF assms(2), of X]
  have f1: "sel_ranges ?s1 = sel_ranges s" "doc_isBefore ?s1 = doc_isBefore s"
    "\<forall>p. children (doc_elements ?s1 p) = children (doc_elements s p)"
    by (simp_all add: s1)
  from caret_in_empty_frame [OF assms f1]
  have c1: "isCollapsed ?s1" and p1: "getFirstPosition ?s1 = Some pos"
    and e1: "getChildCount (doc_elements ?s1 (parent pos)) = 0" by simp_all
  have a1: "sel_attrs ?s1 = heap_next s" "heap_maps ?s1 (heap_next s) = toMap X"
    "doc_elements ?s1 = doc_elements s" by (simp_all add: s1)
  note run = run_setStoredAttributesTo [OF c1 p1 e1, of "heap_next s"]
  have parts: "succeeded (setAttributesTo X s)" "attrs_of ?s1 = toMap X"
    "doc_pendingChanges ?s1 = doc_pendingChanges s @ [SetStoredAttributesTo (sel_attrs ?s1) (parent pos)]"
    using g by (simp_all add: s1 attrs_of_def)
  show ?thesis
    using parts a1(3) unfolding a1(1) run by (simp add: a1)
qed

theorem setAttributesTo_one_scheduled_replacement_witness:
  "isCollapsed caretInEmpty
   \<and> getFirstPosition caretInEmpty = Some \<lparr>parent = 0, offset = 0\<rparr>
   \<and> getChildCount (doc_elements caretInEmpty 0) = 0
   \<and> doc_elements (state_after (setAttributesTo [(''italic'', True)] caretInEmpty)) 0 = storedBold
   \<and> doc_pendingChanges (state_after (setAttributesTo [(''italic'', True)] caretInEmpty)) =
       [SetStoredAttributesTo 1 0]
   \<and> attributes (doc_elements (state_after
         (run_change (SetStoredAttributesTo 1 0) (state_after (setAttributesTo [(''italic'', True)] caretInEmpty)))) 0) =
       [(''selection:italic'', True)]"
proof -
  have c: "isCollapsed caretInEmpty"
    by (simp add: caretInEmpty_def oneContainer_def caretAt_def isCollapsed_def)
  have p: "getFirstPosition caretInEmpty = Some \<lparr>parent = 0, offset = 0\<rparr>"
    by (simp add: caretInEmpty_def oneContainer_def caretAt_def getFirstPosition_def getFirstRange_def)
  have el: "doc_elements caretInEmpty = (\<lambda>p. storedBold)" "doc_pendingChanges caretInEmpty = []"
    "heap_next caretInEmpty = 1"
    by (simp_all add: caretInEmpty_def oneContainer_def)
  have e: "getChildCount (doc_elements caretInEmpty (parent \<lparr>parent = 0, offset = 0\<rparr>)) = 0"
    by (simp add: el getChildCount_def storedBold_def)
  have a: "sel_attrs (state_after (setAttributesTo [(''italic'', True)] caretInEmpty)) = 1"
    by (simp add: setAttributesTo_at [OF p] el)
  have w: "foldl (\<lambda>m e. map_set (getStoreAttributeKey (fst e)) (snd e) m)
             (filter (\<lambda>e. \<not> hasStorePrefix (fst e)) (attributes storedBold)) (toMap [(''italic'', True)]) =
           [(''selection:italic'', True)]"
    by (simp add: storedBold_def hasStorePrefix_def storePrefix_def getStoreAttributeKey_def toMap_def new_Map_def)
  show ?thesis
    using c p e setAttributesTo_one_scheduled_replacement [OF c p e, of "[(''italic'', True)]"]
    by (simp add: a el w)
qed

text \<open>
  Claim C6. For a caret in a container without children: once the transaction that
  \<^verbatim>\<open>setAttributesTo(X)\<close> wrote into has been flushed, the stored attributes read
  for the same position are X (as a map), and a resolution pass yields X; after a
  following \<^verbatim>\<open>clearAttributes()\<close> and the flush of its transaction, the stored
  attributes are none and a resolution pass yields the empty map. The same holds when
  \<^verbatim>\<open>clearAttributes()\<close> follows before the first flush.
\<close>

theorem store_round_trip:
  assumes "isCollapsed s" and "getFirstPosition s = Some pos"
    and "getChildCount (doc_elements s (parent pos)) = 0"
  shows "let s1 = state_after (setAttributesTo X s);
             s2 = state_after (flush s1);
             s3 = state_after (clearAttributes s2);
             s4 = state_after (flush s3);
             t4 = state_after (flush (state_after (clearAttributes s1)))
         in succeeded (setAttributesTo X s) \<and> succeeded (flush s1)
          \<and> getStoredAttributes s2 = Some (toMap X)
          \<and> succeeded (updateAttributes s2)
          \<and> attrs_of (state_after (updateAttributes s2)) = toMap X
          \<and> succeeded (clearAttributes s2) \<and> succeeded (flush s3)
          \<and> getStoredAttributes s4 = Some []
          \<and> succeeded (updateAttributes s4)
          \<and> attrs_of (state_after (updateAttributes s4)) = []
          \<and> succeeded (clearAttributes s1) \<and> succeeded (flush (state_after (clearAttributes s1)))
          \<and> getStoredAttributes t4 = Some []"
proof -
  let ?s1 = "state_after (setAttributesTo X s)"
  let ?s2 = "state_after (flush ?s1)"
  let ?s3 = "state_after (clearAttributes ?s2)"
  let ?s4 = "state_after (flush ?s3)"
  from setAttributesTo_then_flush [OF assms, of X]
  have ok2: "succeeded (setAttributesTo X s)" "succeeded (flush ?s1)"
    and c2: "isCollapsed ?s2" and p2: "getFirstPosition ?s2 = Some pos"
    and e2: "getChildCount (doc_elements ?s2 (parent pos)) = 0"
    and st2: "decodeStore (attributes (doc_elements ?s2 (parent pos))) = toMap X"
    by simp_all
  have g2: "getStoredAttributes ?s2 = Some (toMap X)"
    using stored_in_empty [OF c2 p2 e2] st2 by simp
  have idm: "new_Map (toMap X) = toMap X"
    unfolding toMap_def by (rule new_Map_of_distinct) (rule new_Map_distinct)
  have u2: "succeeded (updateAttributes ?s2)" "attrs_of (state_after (updateAttributes ?s2)) = toMap X"
    using updateAttributes_in_empty [OF c2 p2 e2] st2 idm by simp_all
  from clearAttributes_then_flush [OF c2 p2 e2]
  have ok4: "succeeded (clearAttributes ?s2)" "succeeded (flush ?s3)"
    and c4: "isCollapsed ?s4" and p4: "getFirstPosition ?s4 = Some pos"
    and e4: "getChildCount (doc_elements ?s4 (parent pos)) = 0"
    and st4: "decodeStore (attributes (doc_elements ?s4 (parent pos))) = []"
    by simp_all
  have g4: "getStoredAttributes ?s4 = Some []"
    using stored_in_empty [OF c4 p4 e4] st4 by simp
  have u4: "succeeded (updateAttributes ?s4)" "attrs_of (state_after (updateAttributes ?s4)) = []"
    using updateAttributes_in_empty [OF c4 p4 e4] st4 by (simp_all add: new_Map_def)
  note t = setAttributesTo_clearAttributes_then_flush [OF assms, of X]
  show ?thesis
    unfolding Let_def using ok2 g2 u2 ok4 g4 u4 t by simp
qed

theorem store_round_trip_witness:
  "isCollapsed caretInEmpty
   \<and> getFirstPosition caretInEmpty = Some \<lparr>parent = 0, offset = 0\<rparr>
   \<and> getChildCount (doc_elements caretInEmpty 0) = 0
   \<and> getStoredAttributes (state_after (flush (state_after (setAttributesTo [(''italic'', True)] caretInEmpty))))
       = Some [(''italic'', True)]
   \<and> getStoredAttributes (state_after (flush (state_after (clearAttributes
         (state_after (flush (state_after (setAttributesTo [(''italic'', True)] caretInEmpty))))))))
       = Some []"
proof -
  have c: "isCollapsed caretInEmpty"
    by (simp add: caretInEmpty_def oneContainer_def caretAt_def isCollapsed_def)
  have p: "getFirstPosition caretInEmpty = Some \<lparr>parent = 0, offset = 0\<rparr>"
    by (simp add: caretInEmpty_def oneContainer_def caretAt_def getFirstPosition_def getFirstRange_def)
  have e: "getChildCount (doc_elements caretInEmpty (parent \<lparr>parent = 0, offset = 0\<rparr>)) = 0"
    by (simp add: caretInEmpty_def oneContainer_def getChildCount_def storedBold_def)
  have m: "toMap [(''italic'', True)] = [(''italic'', True)]"
    by (simp add: toMap_def new_Map_def)
  show ?thesis
    using c p e store_round_trip [OF c p e, of "[(''italic'', True)]"]
    by (simp add: Let_def m)
qed

subsection \<open>The ranges of the selection\<close>

lemma detach_all:
  "foldl (\<lambda>t r. detach r t) s rs =
     s\<lparr>doc_listening := filter (\<lambda>i. i \<notin> lr_id ` set rs) (doc_listening s)\<rparr>"
proof (induction rs arbitrary: s)
  case Nil
  then show ?case by simp
next
  case (Cons r rs)
  have "filter (\<lambda>i. i \<notin> lr_id ` set rs) (removeAll (lr_id r) (doc_listening s)) =
        filter (\<lambda>i. i \<notin> lr_id ` set (r # rs)) (doc_listening s)"
    by (induction "doc_listening s") (auto simp: removeAll_filter_not_eq intro: filter_cong)
  then show ?case unfolding foldl_Cons Cons.IH [of "detach r s"] by (simp add: detach_def)
qed

lemma destroy_eq:
  "destroy s = s\<lparr>doc_listening := filter (\<lambda>i. i \<notin> lr_id ` set (sel_ranges s)) (doc_listening s)\<rparr>"
  by (simp add: destroy_def detach_all)

lemma validRange_cong: "doc_elements t = doc_elements s \<Longrightarrow> validRange t r = validRange s r"
  by (simp add: validRange_def validPosition_def)

lemma pushRange_eq:
  "pushRange r s =
     (if validRange s r
      then Done (s\<lparr>doc_listening := doc_listening s @ [doc_nextRange s],
                   doc_nextRange := Suc (doc_nextRange s),
                   sel_ranges := sel_ranges s @ [\<lparr>lr_id = doc_nextRange s, lr_range = r\<rparr>]\<rparr>)
      else Threw InvalidRange s)"
  by (simp add: pushRange_def checkRange_def validRange_def createFromRange_def)

lemma ids_liveRangesFrom: "map lr_id (liveRangesFrom n rs) = [n..<n + length rs]"
proof (induction rs arbitrary: n)
  case Nil
  then show ?case by simp
next
  case (Cons r rs)
  have "[n..<n + length (r # rs)] = n # [Suc n..<Suc n + length rs]"
    using upt_conv_Cons [of n "n + length (r # rs)"] by simp
  then show ?case using Cons.IH [of "Suc n"] by simp
qed

lemma pushRanges_eq:
  "pushRanges rs s =
     (if \<forall>r \<in> set rs. validRange s r
      then Done (s\<lparr>doc_listening := doc_listening s @ map lr_id (liveRangesFrom (doc_nextRange s) rs),
                doc_nextRange := doc_nextRange s + length rs,
                sel_ranges := sel_ranges s @ liveRangesFrom (doc_nextRange s) rs\<rparr>)
      else Threw InvalidRange
             (s\<lparr>doc_listening := doc_listening s @
                    map lr_id (liveRangesFrom (doc_nextRange s) (takeWhile (validRange s) rs)),
                doc_nextRange := doc_nextRange s + length (takeWhile (validRange s) rs),
                sel_ranges := sel_ranges s @ liveRangesFrom (doc_nextRange s) (takeWhile (validRange s) rs)\<rparr>))"
proof (induction rs arbitrary: s)
  case Nil
  then show ?case by simp
next
  case (Cons r rs)
  show ?case
  proof (cases "validRange s r")
    case False
    then show ?thesis by (simp add: pushRange_eq)
  next
    case True
    let ?n = "doc_nextRange s"
    let ?s1 = "s\<lparr>doc_listening := doc_listening s @ [?n],
                  doc_nextRange := Suc ?n,
                  sel_ranges := sel_ranges s @ [\<lparr>lr_id = ?n, lr_range = r\<rparr>]\<rparr>"
    have v: "validRange ?s1 = validRange s"
      by (rule ext) (rule validRange_cong, simp)
    have step: "pushRanges (r # rs) s = pushRanges rs ?s1"
      using True by (simp add: pushRange_eq)
    have tw: "takeWhile (validRange s) (r # rs) = r # takeWhile (validRange s) rs"
      using True by simp
    have al: "(\<forall>x \<in> set (r # rs). validRange s x) = (\<forall>x \<in> set rs. validRange s x)"
      using True by simp
    show ?thesis
      unfolding step Cons.IH [of ?s1] v tw al
      by simp
  qed
qed

lemma ranges_liveRangesFrom: "map lr_range (liveRangesFrom n rs) = rs"
  by (induction rs arbitrary: n) simp_all

lemma takeWhile_all: "(\<forall>r \<in> set rs. P r) \<Longrightarrow> takeWhile P rs = rs"
  by (induction rs) simp_all

lemma setRanges_eq:
  "setRanges rs b s =
     (if \<forall>r \<in> set rs. validRange s r
      then Done (s\<lparr>doc_listening := filter (\<lambda>i. i \<notin> lr_id ` set (sel_ranges s)) (doc_listening s) @
                     map lr_id (liveRangesFrom (doc_nextRange s) rs),
                 doc_nextRange := doc_nextRange s + length rs,
                 sel_ranges := liveRangesFrom (doc_nextRange s) rs,
                 sel_lastRangeBackward := b,
                 sel_fired := sel_fired s @ [''change:range'']\<rparr>)
      else Threw InvalidRange
             (s\<lparr>doc_listening := filter (\<lambda>i. i \<notin> lr_id ` set (sel_ranges s)) (doc_listening s) @
                     map lr_id (liveRangesFrom (doc_nextRange s) (takeWhile (validRange s) rs)),
                 doc_nextRange := doc_nextRange s + length (takeWhile (validRange s) rs),
                 sel_ranges := liveRangesFrom (doc_nextRange s) (takeWhile (validRange s) rs)\<rparr>))"
proof -
  let ?d = "(destroy s)\<lparr>sel_ranges := []\<rparr>"
  have v: "validRange ?d = validRange s"
    by (rule ext) (rule validRange_cong, simp add: destroy_eq)
  show ?thesis
    unfolding setRanges_def super_setRanges_def pushRanges_eq [of rs ?d] v
    by (simp add: destroy_eq fire_def)
qed

lemma removeAllRanges_eq:
  "removeAllRanges s =
     s\<lparr>doc_listening := filter (\<lambda>i. i \<notin> lr_id ` set (sel_ranges s)) (doc_listening s),
       sel_ranges := [], sel_fired := sel_fired s @ [''change:range'']\<rparr>"
  by (simp add: removeAllRanges_def super_removeAllRanges_def destroy_eq fire_def)

lemma popRange_eq:
  "popRange s =
     (if sel_ranges s = [] then Threw TypeError s
      else Done (s\<lparr>sel_ranges := butlast (sel_ranges s),
                   doc_listening := removeAll (lr_id (last (sel_ranges s))) (doc_listening s)\<rparr>))"
proof (cases "sel_ranges s" rule: rev_cases)
  case Nil
  then show ?thesis by (simp add: popRange_def)
next
  case (snoc rs r)
  then show ?thesis by (simp add: popRange_def detach_def)
qed

text \<open>
  Claim C8. A selection whose live ranges were created before the next identity of the
  document: \<^verbatim>\<open>removeAllRanges\<close> leaves no range, and \<^verbatim>\<open>setRanges\<close>, whether
  it succeeds or is stopped by an invalid range, leaves none of the former ranges
  listening; the ranges it stores are the incoming ranges that passed the check, in
  their order, each wrapped as a live range that listens (all of them when it succeeds).
  A pushed range is stored only if it passes the check, wrapped and listening; a popped
  range is the last one and does not listen any more.
\<close>

theorem ranges_detached_and_wrapped:
  assumes "\<forall>l \<in> set (sel_ranges s). lr_id l < doc_nextRange s"
  shows "sel_ranges (removeAllRanges s) = []
       \<and> (\<forall>l \<in> set (sel_ranges s). lr_id l \<notin> set (doc_listening (removeAllRanges s)))
       \<and> (\<forall>l \<in> set (sel_ranges s). lr_id l \<notin> set (doc_listening (state_after (setRanges rs b s))))
       \<and> succeeded (setRanges rs b s) = (\<forall>r \<in> set rs. validRange s r)
       \<and> sel_ranges (state_after (setRanges rs b s)) =
           liveRangesFrom (doc_nextRange s) (takeWhile (validRange s) rs)
       \<and> (\<forall>l \<in> set (sel_ranges (state_after (setRanges rs b s))).
             lr_id l \<in> set (doc_listening (state_after (setRanges rs b s))))
       \<and> (succeeded (setRanges rs b s) \<longrightarrow>
             map lr_range (sel_ranges (state_after (setRanges rs b s))) = rs
           \<and> sel_lastRangeBackward (state_after (setRanges rs b s)) = b)
       \<and> succeeded (pushRange r s) = validRange s r
       \<and> sel_ranges (state_after (pushRange r s)) =
           (if validRange s r then sel_ranges s @ [\<lparr>lr_id = doc_nextRange s, lr_range = r\<rparr>] else sel_ranges s)
       \<and> (validRange s r \<longrightarrow> doc_nextRange s \<in> set (doc_listening (state_after (pushRange r s))))
       \<and> succeeded (popRange s) = (sel_ranges s \<noteq> [])
       \<and> (sel_ranges s \<noteq> [] \<longrightarrow>
             sel_ranges (state_after (popRange s)) = butlast (sel_ranges s)
           \<and> lr_id (last (sel_ranges s)) \<notin> set (doc_listening (state_after (popRange s))))"
proof -
  let ?pre = "takeWhile (validRange s) rs"
  let ?n = "doc_nextRange s"
  have remove: "sel_ranges (removeAllRanges s) = []"
    "\<forall>l \<in> set (sel_ranges s). lr_id l \<notin> set (doc_listening (removeAllRanges s))"
    by (simp_all add: removeAllRanges_eq)
  have listening: "doc_listening (state_after (setRanges rs b s)) =
      filter (\<lambda>i. i \<notin> lr_id ` set (sel_ranges s)) (doc_listening s) @ map lr_id (liveRangesFrom ?n ?pre)"
    by (cases "\<forall>r \<in> set rs. validRange s r") (simp_all add: setRanges_eq takeWhile_all)
  have stored: "sel_ranges (state_after (setRanges rs b s)) = liveRangesFrom ?n ?pre"
    by (cases "\<forall>r \<in> set rs. validRange s r") (simp_all add: setRanges_eq takeWhile_all)
  have ok: "succeeded (setRanges rs b s) = (\<forall>r \<in> set rs. validRange s r)"
    by (simp add: setRanges_eq)
  have fresh: "\<forall>i \<in> set (map lr_id (liveRangesFrom ?n ?pre)). ?n \<le> i"
    unfolding ids_liveRangesFrom by simp
  have old: "\<forall>l \<in> set (sel_ranges s). lr_id l \<notin> set (doc_listening (state_after (setRanges rs b s)))"
  proof
    fix l assume l: "l \<in> set (sel_ranges s)"
    then have "lr_id l < ?n" using assms by blast
    then have "lr_id l \<notin> set (map lr_id (liveRangesFrom ?n ?pre))" using fresh by fastforce
    with l show "lr_id l \<notin> set (doc_listening (state_after (setRanges rs b s)))"
      unfolding listening by simp
  qed
  have new: "\<forall>l \<in> set (sel_ranges (state_after (setRanges rs b s))).
      lr_id l \<in> set (doc_listening (state_after (setRanges rs b s)))"
    unfolding listening stored by simp
  have whole: "succeeded (setRanges rs b s) \<longrightarrow>
      map lr_range (sel_ranges (state_after (setRanges rs b s))) = rs
      \<and> sel_lastRangeBackward (state_after (setRanges rs b s)) = b"
  proof
    assume "succeeded (setRanges rs b s)"
    then have all: "\<forall>r \<in> set rs. validRange s r" using ok by simp
    then have "?pre = rs" by (rule takeWhile_all)
    then have "map lr_range (sel_ranges (state_after (setRanges rs b s))) = rs"
      unfolding stored by (simp add: ranges_liveRangesFrom)
    moreover have "sel_lastRangeBackward (state_after (setRanges rs b s)) = b"
      using all by (simp add: setRanges_eq)
    ultimately show "map lr_range (sel_ranges (state_after (setRanges rs b s))) = rs
      \<and> sel_lastRangeBackward (state_after (setRanges rs b s)) = b" by simp
  qed
  have push: "succeeded (pushRange r s) = validRange s r"
    "sel_ranges (state_after (pushRange r s)) =
       (if validRange s r then sel_ranges s @ [\<lparr>lr_id = ?n, lr_range = r\<rparr>] else sel_ranges s)"
    "validRange s r \<longrightarrow> ?n \<in> set (doc_listening (state_after (pushRange r s)))"
    by (simp_all add: pushRange_eq)
  have pop: "succeeded (popRange s) = (sel_ranges s \<noteq> [])"
    "sel_ranges s \<noteq> [] \<longrightarrow>
       sel_ranges (state_after (popRange s)) = butlast (sel_ranges s)
       \<and> lr_id (last (sel_ranges s)) \<notin> set (doc_listening (state_after (popRange s)))"
    by (simp_all add: popRange_eq)
  show ?thesis
    using remove old ok stored new whole push pop by blast
qed

theorem ranges_detached_and_wrapped_witness:
  "doc_nextRange twoRanges = 2
   \<and> sel_ranges twoRanges = [\<lparr>lr_id = 0, lr_range = spanOf 0 0 1\<rparr>, \<lparr>lr_id = 1, lr_range = spanOf 0 1 2\<rparr>]
   \<and> doc_listening twoRanges = [0, 1]
   \<and> succeeded (setRanges [caretAt 0 2] False twoRanges)
   \<and> sel_ranges (state_after (setRanges [caretAt 0 2] False twoRanges)) = [\<lparr>lr_id = 2, lr_range = caretAt 0 2\<rparr>]
   \<and> doc_listening (state_after (setRanges [caretAt 0 2] False twoRanges)) = [2]
   \<and> \<not> succeeded (setRanges [caretAt 0 3] False twoRanges)
   \<and> doc_listening (removeAllRanges twoRanges) = []
   \<and> succeeded (popRange twoRanges)
   \<and> doc_listening (state_after (popRange twoRanges)) = [0]"
proof -
  have f: "\<forall>l \<in> set (sel_ranges twoRanges). lr_id l < doc_nextRange twoRanges"
    by (simp add: twoRanges_def oneContainer_def)
  have st: "sel_ranges twoRanges = [\<lparr>lr_id = 0, lr_range = spanOf 0 0 1\<rparr>, \<lparr>lr_id = 1, lr_range = spanOf 0 1 2\<rparr>]"
    "doc_listening twoRanges = [0, 1]" "doc_nextRange twoRanges = 2"
    by (simp_all add: twoRanges_def oneContainer_def)
  have v: "validRange twoRanges (caretAt 0 2)" "\<not> validRange twoRanges (caretAt 0 3)"
    by (simp_all add: validRange_def validPosition_def getChildCount_def caretAt_def twoRanges_def
        oneContainer_def twoRuns_def)
  have l1: "doc_listening (state_after (setRanges [caretAt 0 2] False twoRanges)) = [2]"
    using v(1) by (simp add: setRanges_eq st)
  have l2: "doc_listening (removeAllRanges twoRanges) = []"
    by (simp add: removeAllRanges_eq st)
  have l3: "doc_listening (state_after (popRange twoRanges)) = [0]"
    by (simp add: popRange_eq st)
  note t = ranges_detached_and_wrapped [OF f]
  show ?thesis
    using st v l1 l2 l3 t [of "[caretAt 0 2]" False "caretAt 0 2"]
      t [of "[caretAt 0 3]" False "caretAt 0 3"]
    by (simp add: st)
qed

end
